theory Spec2Isabelle
  imports Main
begin

section \<open>Strings of the platform\<close>

text \<open>
  A JavaScript string is modelled as a \<open>string\<close>, one \<open>char\<close> per code unit below 256.
  In that range the white space of \<open>String.prototype.trim\<close> and of the regular
  expression class \<open>\s\<close> is TAB, LF, VT, FF, CR, SPACE and NBSP.
\<close>

definition isWhiteSpace :: "char \<Rightarrow> bool" where
  "isWhiteSpace c = (c \<in> set [CHR 0x09, CHR 0x0A, CHR 0x0B, CHR 0x0C, CHR 0x0D, CHR 0x20, CHR 0xA0])"

definition trim :: "string \<Rightarrow> string" where
  "trim s = rev (dropWhile isWhiteSpace (rev (dropWhile isWhiteSpace s)))"

text \<open>Truthiness of a string: the empty string is the only falsy one.\<close>

definition truthy :: "string \<Rightarrow> bool" where
  "truthy s = (s \<noteq> [])"

section \<open>Data model (PlayerStats.tsx, App.tsx)\<close>

datatype booking_type = Singles | Doubles

record Booking =
  id_field :: string
  court :: int
  timeSlot :: string
  players :: "string list"
  type :: booking_type
  date :: string

record PlayerStat =
  name :: string
  totalMatches :: nat
  singlesMatches :: nat
  doublesMatches :: nat
  totalHours :: nat
  favoriteCourt :: int
  lastPlayed :: string

section \<open>The insertion-ordered Map of the platform\<close>

text \<open>
  A \<open>Map\<close> keeps its keys in insertion order; \<open>set\<close> on a key that is present replaces
  the value where the key stands, \<open>set\<close> on a new key appends it.
\<close>

type_synonym ('k, 'v) jsmap = "('k \<times> 'v) list"

definition map_get :: "('k, 'v) jsmap \<Rightarrow> 'k \<Rightarrow> 'v option" where
  "map_get m k = map_of m k"

fun map_set :: "'k \<Rightarrow> 'v \<Rightarrow> ('k, 'v) jsmap \<Rightarrow> ('k, 'v) jsmap" where
  "map_set k v [] = [(k, v)]"
| "map_set k v ((k', v') # m) = (if k' = k then (k, v) # m else (k', v') # map_set k v m)"

definition map_values :: "('k, 'v) jsmap \<Rightarrow> 'v list" where
  "map_values m = map snd m"

section \<open>Dates\<close>

text \<open>
  \<open>new Date(s)\<close> belongs to the platform. Its time value is a parameter
  \<open>tv :: string \<Rightarrow> int option\<close> of the aggregation, \<open>None\<close> standing for the NaN of an
  invalid date. \<open>new Date(a) > new Date(b)\<close> compares the two time values as numbers,
  and is false as soon as one of them is NaN.
\<close>

definition dateGt :: "(string \<Rightarrow> int option) \<Rightarrow> string \<Rightarrow> string \<Rightarrow> bool" where
  "dateGt tv a b = (case tv a of None \<Rightarrow> False
                    | Some x \<Rightarrow> (case tv b of None \<Rightarrow> False | Some y \<Rightarrow> y < x))"

text \<open>
  The time value of the date-only form \<open>YYYY-MM-DD\<close>, in milliseconds since
  1970-01-01 UTC, as ECMAScript computes it (DayFromYear, the day within the year, and
  86400000 ms per day); any other string is taken as invalid. It instantiates \<open>tv\<close> in
  the concrete runs below.
\<close>

definition digitVal :: "char \<Rightarrow> int option" where
  "digitVal c = (let n = (of_char c :: nat) in
                 if 48 \<le> n \<and> n \<le> 57 then Some (int n - 48) else None)"

fun digitsVal :: "int \<Rightarrow> string \<Rightarrow> int option" where
  "digitsVal acc [] = Some acc"
| "digitsVal acc (c # cs) =
     (case digitVal c of None \<Rightarrow> None | Some d \<Rightarrow> digitsVal (10 * acc + d) cs)"

definition isLeap :: "int \<Rightarrow> bool" where
  "isLeap y = ((y mod 4 = 0 \<and> y mod 100 \<noteq> 0) \<or> y mod 400 = 0)"

definition daysInMonth :: "int \<Rightarrow> int \<Rightarrow> int" where
  "daysInMonth y m =
     (if m = 2 then (if isLeap y then 29 else 28)
      else if m = 4 \<or> m = 6 \<or> m = 9 \<or> m = 11 then 30 else 31)"

definition dayFromYear :: "int \<Rightarrow> int" where
  "dayFromYear y =
     365 * (y - 1970) + (y - 1969) div 4 - (y - 1901) div 100 + (y - 1601) div 400"

definition dayWithinYear :: "int \<Rightarrow> int \<Rightarrow> int \<Rightarrow> int" where
  "dayWithinYear y m d = sum_list (map (daysInMonth y) [1..m - 1]) + (d - 1)"

definition isoTime :: "string \<Rightarrow> int option" where
  "isoTime s =
     (if length s = 10 \<and> s ! 4 = CHR ''-'' \<and> s ! 7 = CHR ''-'' then
        (case (digitsVal 0 (take 4 s), digitsVal 0 (take 2 (drop 5 s)),
               digitsVal 0 (drop 8 s)) of
           (Some y, Some m, Some d) \<Rightarrow>
             if 1 \<le> m \<and> m \<le> 12 \<and> 1 \<le> d \<and> d \<le> daysInMonth y m
             then Some (86400000 * (dayFromYear y + dayWithinYear y m d))
             else None
         | _ \<Rightarrow> None)
      else None)"

section \<open>calculatePlayerStats (PlayerStats.tsx)\<close>

definition matchDuration :: "Booking \<Rightarrow> nat" where
  "matchDuration booking = (if type booking = Singles then 1 else 2)"

text \<open>The body of the inner \<open>booking.players.forEach\<close>, for one player entry.\<close>

definition processPlayer ::
  "(string \<Rightarrow> int option) \<Rightarrow> Booking \<Rightarrow> string \<Rightarrow> (string, PlayerStat) jsmap
     \<Rightarrow> (string, PlayerStat) jsmap" where
  "processPlayer tv booking playerName statsMap =
     (if \<not> truthy (trim playerName) then statsMap
      else
        let existing =
              (case map_get statsMap playerName of
                 Some s \<Rightarrow> s
               | None \<Rightarrow> \<lparr>name = playerName, totalMatches = 0, singlesMatches = 0,
                           doublesMatches = 0, totalHours = 0, favoriteCourt = 1,
                           lastPlayed = date booking\<rparr>);
            e1 = existing\<lparr>totalMatches := totalMatches existing + 1\<rparr>;
            e2 = e1\<lparr>totalHours := totalHours e1 + matchDuration booking\<rparr>;
            e3 = (if type booking = Singles
                  then e2\<lparr>singlesMatches := singlesMatches e2 + 1\<rparr>
                  else e2\<lparr>doublesMatches := doublesMatches e2 + 1\<rparr>);
            e4 = (if dateGt tv (date booking) (lastPlayed e3)
                  then e3\<lparr>lastPlayed := date booking\<rparr> else e3)
        in map_set playerName e4 statsMap)"

text \<open>The first pass: every booking, and in it every player entry, in order.\<close>

definition processBooking ::
  "(string \<Rightarrow> int option) \<Rightarrow> Booking \<Rightarrow> (string, PlayerStat) jsmap
     \<Rightarrow> (string, PlayerStat) jsmap" where
  "processBooking tv booking statsMap =
     fold (processPlayer tv booking) (players booking) statsMap"

definition groupingPass ::
  "(string \<Rightarrow> int option) \<Rightarrow> Booking list \<Rightarrow> (string, PlayerStat) jsmap" where
  "groupingPass tv bookings = fold (processBooking tv) bookings []"

text \<open>The second pass, for one player: the tally of courts, then the scan for the maximum.\<close>

definition countCourt :: "string \<Rightarrow> Booking \<Rightarrow> (int, nat) jsmap \<Rightarrow> (int, nat) jsmap" where
  "countCourt playerName booking courtCounts =
     (if playerName \<in> set (players booking)
      then map_set (court booking)
             ((case map_get courtCounts (court booking) of
                 None \<Rightarrow> 0
               | Some c \<Rightarrow> (if c = 0 then 0 else c)) + 1) courtCounts
      else courtCounts)"

definition courtCountsFor :: "Booking list \<Rightarrow> string \<Rightarrow> (int, nat) jsmap" where
  "courtCountsFor bookings playerName = fold (countCourt playerName) bookings []"

definition pickStep :: "int \<times> nat \<Rightarrow> nat \<times> int \<Rightarrow> nat \<times> int" where
  "pickStep entry acc =
     (case entry of (c, count) \<Rightarrow>
        (case acc of (maxCount, favorite) \<Rightarrow>
           if count > maxCount then (count, c) else (maxCount, favorite)))"

definition pickFavorite :: "(int, nat) jsmap \<Rightarrow> int" where
  "pickFavorite courtCounts = snd (fold pickStep courtCounts (0, 1))"

definition favoriteCourtPass ::
  "Booking list \<Rightarrow> (string, PlayerStat) jsmap \<Rightarrow> (string, PlayerStat) jsmap" where
  "favoriteCourtPass bookings statsMap =
     map (\<lambda>(playerName, stats).
            (playerName,
             stats\<lparr>favoriteCourt := pickFavorite (courtCountsFor bookings playerName)\<rparr>))
         statsMap"

text \<open>
  \<open>Array.prototype.sort\<close> with a comparator is stable; it is modelled as a stable
  insertion sort. \<open>cmp a b \<le> 0\<close> keeps \<open>a\<close> before \<open>b\<close>.
\<close>

fun insertBy :: "('a \<Rightarrow> 'a \<Rightarrow> int) \<Rightarrow> 'a \<Rightarrow> 'a list \<Rightarrow> 'a list" where
  "insertBy cmp x [] = [x]"
| "insertBy cmp x (y # ys) = (if cmp x y \<le> 0 then x # y # ys else y # insertBy cmp x ys)"

definition sortBy :: "('a \<Rightarrow> 'a \<Rightarrow> int) \<Rightarrow> 'a list \<Rightarrow> 'a list" where
  "sortBy cmp xs = foldr (insertBy cmp) xs []"

definition byTotalMatches :: "PlayerStat \<Rightarrow> PlayerStat \<Rightarrow> int" where
  "byTotalMatches a b = int (totalMatches b) - int (totalMatches a)"

definition calculatePlayerStats ::
  "(string \<Rightarrow> int option) \<Rightarrow> Booking list \<Rightarrow> PlayerStat list" where
  "calculatePlayerStats tv bookings =
     sortBy byTotalMatches
       (map_values (favoriteCourtPass bookings (groupingPass tv bookings)))"

section \<open>Number formatting\<close>

text \<open>A non-negative integer in a template literal prints in decimal.\<close>

definition digitChar :: "nat \<Rightarrow> char" where
  "digitChar d = ''0123456789'' ! d"

function showNat :: "nat \<Rightarrow> string" where
  "showNat n = (if n < 10 then [digitChar n] else showNat (n div 10) @ [digitChar (n mod 10)])"
  by pat_completeness auto
termination
  by (relation "measure id") auto

declare showNat.simps [simp del]

definition showInt :: "int \<Rightarrow> string" where
  "showInt i = (if i < 0 then CHR ''-'' # showNat (nat (- i)) else showNat (nat i))"

section \<open>EmailNotifications (validateEmails, sendNotifications)\<close>

text \<open>
  The regular expression \<open>/^[^\s@]+@[^\s@]+\.[^\s@]+$/\<close> is a sequence of tokens, a
  literal character or one-or-more characters of a class, matched against the whole
  string (the anchors \<open>^\<close> and \<open>$\<close>) with backtracking.
\<close>

datatype token = Lit char | Plus "char \<Rightarrow> bool"

fun matches :: "token list \<Rightarrow> string \<Rightarrow> bool" where
  "matches [] s = (s = [])"
| "matches (Lit c # r) [] = False"
| "matches (Lit c # r) (x # xs) = (x = c \<and> matches r xs)"
| "matches (Plus P # r) [] = False"
| "matches (Plus P # r) (x # xs) = (P x \<and> (matches (Plus P # r) xs \<or> matches r xs))"

definition notSpaceAt :: "char \<Rightarrow> bool" where
  "notSpaceAt c = (\<not> isWhiteSpace c \<and> c \<noteq> CHR ''@'')"

definition emailRegex :: "token list" where
  "emailRegex = [Plus notSpaceAt, Lit CHR ''@'', Plus notSpaceAt, Lit CHR ''.'', Plus notSpaceAt]"

text \<open>
  The component state, the request handed to \<open>blink.notifications.email\<close>, and what a
  run of \<open>sendNotifications\<close> leaves behind: the state, the calls made to the service
  in order, whether \<open>onEmailSent\<close> was invoked, and whether the closing timer was set.
  The service is a parameter: \<open>env i r\<close> is what the \<open>i\<close>-th call, with request \<open>r\<close>,
  does: it returns a promise that is fulfilled or rejected, or it throws at once. The
  optional callback \<open>onEmailSent\<close> returns or throws.
\<close>

datatype send_status = Idle | Success | Error

record EmailTemplate =
  subject :: string
  message :: string

record email_state =
  isOpen :: bool
  emailAddresses :: "string list"
  emailTemplate :: EmailTemplate
  isSending :: bool
  sendStatus :: send_status
  errorMessage :: string

record email_request =
  to :: string
  subject_field :: string
  html :: string
  text_field :: string

datatype send_result = Fulfilled | Rejected | Threw

datatype callback = Returns | Throws

record send_outcome =
  state :: email_state
  calls :: "email_request list"
  notified :: bool
  closeScheduled :: bool

definition validateEmails :: "email_state \<Rightarrow> string list" where
  "validateEmails st =
     filter (\<lambda>email. let trimmed = trim email
                     in truthy trimmed \<and> matches emailRegex trimmed)
            (emailAddresses st)"

definition newlinesToBr :: "string \<Rightarrow> string" where
  "newlinesToBr s = concat (map (\<lambda>c. if c = CHR 0x0A then ''<br>'' else [c]) s)"

definition emailRequest :: "EmailTemplate \<Rightarrow> string \<Rightarrow> email_request" where
  "emailRequest t email =
     \<lparr>to = email, subject_field = subject t, html = newlinesToBr (message t),
      text_field = message t\<rparr>"

text \<open>
  \<open>validEmails.map(email => blink.notifications.email(...))\<close>: the calls in order, cut
  short by the first call that throws. \<open>Promise.allSettled\<close> then yields one outcome per
  promise.
\<close>

fun callAll :: "(nat \<Rightarrow> email_request \<Rightarrow> send_result) \<Rightarrow> nat \<Rightarrow> email_request list
                 \<Rightarrow> send_result list" where
  "callAll env i [] = []"
| "callAll env i (r # rs) =
     (case env i r of
        Threw \<Rightarrow> [Threw]
      | res \<Rightarrow> res # callAll env (Suc i) rs)"

definition sendNotifications ::
  "(nat \<Rightarrow> email_request \<Rightarrow> send_result) \<Rightarrow> callback option \<Rightarrow> email_state
     \<Rightarrow> send_outcome" where
  "sendNotifications env onEmailSent st =
     (let validEmails = validateEmails st in
      if length validEmails = 0 then
        \<lparr>state = st\<lparr>errorMessage := ''Please enter at least one valid email address.'',
                     sendStatus := Error\<rparr>,
         calls = [], notified = False, closeScheduled = False\<rparr>
      else if \<not> truthy (trim (subject (emailTemplate st))) \<or>
              \<not> truthy (trim (message (emailTemplate st))) then
        \<lparr>state = st\<lparr>errorMessage := ''Please fill in both subject and message.'',
                     sendStatus := Error\<rparr>,
         calls = [], notified = False, closeScheduled = False\<rparr>
      else
        let st1 = st\<lparr>isSending := True, sendStatus := Idle, errorMessage := []\<rparr>;
            requests = map (emailRequest (emailTemplate st)) validEmails;
            results = callAll env 0 requests;
            made = take (length results) requests;
            caught = st1\<lparr>errorMessage :=
                           ''Failed to send email notifications. Please try again.'',
                         sendStatus := Error, isSending := False\<rparr>
        in if Threw \<in> set results then
             \<lparr>state = caught, calls = made, notified = False, closeScheduled = False\<rparr>
           else
             let failedEmails = filter (\<lambda>result. result = Rejected) results in
             if length failedEmails = 0 then
               (case onEmailSent of
                  Some Throws \<Rightarrow>
                    \<lparr>state = caught, calls = made, notified = True, closeScheduled = False\<rparr>
                | Some Returns \<Rightarrow>
                    \<lparr>state = st1\<lparr>sendStatus := Success, isSending := False\<rparr>,
                     calls = made, notified = True, closeScheduled = True\<rparr>
                | None \<Rightarrow>
                    \<lparr>state = st1\<lparr>sendStatus := Success, isSending := False\<rparr>,
                     calls = made, notified = False, closeScheduled = True\<rparr>)
             else
               \<lparr>state = st1\<lparr>errorMessage :=
                              ''Failed to send '' @ showNat (length failedEmails) @
                              '' out of '' @ showNat (length validEmails) @ '' emails.'',
                            sendStatus := Error, isSending := False\<rparr>,
                calls = made, notified = False, closeScheduled = False\<rparr>)"

section \<open>App (handleSaveBooking, handleDeleteBooking)\<close>

text \<open>
  The state the two handlers read and write. \<open>Date.now()\<close> is the parameter \<open>now\<close>.
  \<open>otherCell e\<close> is the predicate of both \<open>prev.filter\<close> calls.
\<close>

record EditingBooking =
  editing_court :: int
  editing_timeSlot :: string
  editing_type :: booking_type

record app_state =
  bookings :: "Booking list"
  selectedDate :: string
  isDialogOpen :: bool
  editingBooking :: "EditingBooking option"
  playerInputs :: "string list"

definition otherCell :: "EditingBooking \<Rightarrow> Booking \<Rightarrow> bool" where
  "otherCell e b = (\<not> (court b = editing_court e \<and> timeSlot b = editing_timeSlot e))"

definition closeDialog :: "app_state \<Rightarrow> app_state" where
  "closeDialog st = st\<lparr>isDialogOpen := False, editingBooking := None,
                        playerInputs := ['''', '''', '''', '''']\<rparr>"

definition handleSaveBooking :: "nat \<Rightarrow> app_state \<Rightarrow> app_state" where
  "handleSaveBooking now st =
     (case editingBooking st of
        None \<Rightarrow> st
      | Some e \<Rightarrow>
          let filteredPlayers = filter (\<lambda>p. truthy (trim p)) (playerInputs st) in
          if length filteredPlayers = 0 then
            closeDialog (st\<lparr>bookings := filter (otherCell e) (bookings st)\<rparr>)
          else
            let newBooking =
                  \<lparr>id_field = showInt (editing_court e) @ ''-'' @ editing_timeSlot e @ ''-'' @
                               showNat now,
                   court = editing_court e, timeSlot = editing_timeSlot e,
                   players = filteredPlayers, type = editing_type e,
                   date = selectedDate st\<rparr>
            in closeDialog (st\<lparr>bookings := filter (otherCell e) (bookings st) @ [newBooking]\<rparr>))"

definition handleDeleteBooking :: "app_state \<Rightarrow> app_state" where
  "handleDeleteBooking st =
     (case editingBooking st of
        None \<Rightarrow> st
      | Some e \<Rightarrow> closeDialog (st\<lparr>bookings := filter (otherCell e) (bookings st)\<rparr>))"

section \<open>Notions used in the statements and proofs\<close>

text \<open>
  The courts of the bookings whose player list contains the player, in scan order, and
  the position at which a value first occurs in a list.
\<close>

definition courtsOf :: "Booking list \<Rightarrow> string \<Rightarrow> int list" where
  "courtsOf bs k = map court (filter (\<lambda>b. k \<in> set (players b)) bs)"

definition firstIndex :: "'a list \<Rightarrow> 'a \<Rightarrow> nat" where
  "firstIndex cs c = length (takeWhile (\<lambda>x. x \<noteq> c) cs)"

text \<open>A booking with its blank player entries removed.\<close>

definition dropBlank :: "Booking \<Rightarrow> Booking" where
  "dropBlank b = b\<lparr>players := filter (\<lambda>p. truthy (trim p)) (players b)\<rparr>"

text \<open>
  The first pass seen from one player: \<open>initStat\<close> is the record created at a player's
  first entry, \<open>bumpStat\<close> the update of one entry, \<open>entries\<close> the (booking, entry)
  pairs in the order the two nested loops visit them, \<open>appearances\<close> the bookings of
  the entries equal to a name (one per entry), and \<open>statOf\<close> the record those
  appearances build.
\<close>

definition initStat :: "string \<Rightarrow> Booking \<Rightarrow> PlayerStat" where
  "initStat playerName booking =
     \<lparr>name = playerName, totalMatches = 0, singlesMatches = 0, doublesMatches = 0,
      totalHours = 0, favoriteCourt = 1, lastPlayed = date booking\<rparr>"

definition bumpStat :: "(string \<Rightarrow> int option) \<Rightarrow> Booking \<Rightarrow> PlayerStat \<Rightarrow> PlayerStat" where
  "bumpStat tv b s =
     s\<lparr>totalMatches := totalMatches s + 1,
       totalHours := totalHours s + matchDuration b,
       singlesMatches := singlesMatches s + (if type b = Singles then 1 else 0),
       doublesMatches := doublesMatches s + (if type b = Singles then 0 else 1),
       lastPlayed := (if dateGt tv (date b) (lastPlayed s) then date b else lastPlayed s)\<rparr>"

definition entries :: "Booking list \<Rightarrow> (Booking \<times> string) list" where
  "entries bs = concat (map (\<lambda>b. map (Pair b) (players b)) bs)"

definition keyStep ::
  "(string \<Rightarrow> int option) \<Rightarrow> string \<Rightarrow> Booking \<times> string \<Rightarrow> PlayerStat option \<Rightarrow> PlayerStat option" where
  "keyStep tv k e acc =
     (if snd e = k \<and> truthy (trim k)
      then Some (bumpStat tv (fst e) (case acc of None \<Rightarrow> initStat k (fst e) | Some s \<Rightarrow> s))
      else acc)"

definition appearances :: "Booking list \<Rightarrow> string \<Rightarrow> Booking list" where
  "appearances bs k = map fst (filter (\<lambda>e. snd e = k) (entries bs))"

definition statOf :: "(string \<Rightarrow> int option) \<Rightarrow> Booking list \<Rightarrow> string \<Rightarrow> PlayerStat option" where
  "statOf tv bs k =
     (if truthy (trim k) then
        (case appearances bs k of [] \<Rightarrow> None
         | b # r \<Rightarrow> Some (fold (bumpStat tv) (b # r) (initStat k b)))
      else None)"

text \<open>The tally of the second pass as a step on the list of courts.\<close>

definition tallyStep :: "int \<Rightarrow> (int, nat) jsmap \<Rightarrow> (int, nat) jsmap" where
  "tallyStep c m =
     map_set c ((case map_get m c of None \<Rightarrow> 0 | Some n \<Rightarrow> (if n = 0 then 0 else n)) + 1) m"

text \<open>
  The shape of a recipient address in the words of the specification: no white space,
  and a non-empty local part, \<open>@\<close>, a non-empty domain, \<open>.\<close> and a non-empty rest.
\<close>

definition specAddressShape :: "string \<Rightarrow> bool" where
  "specAddressShape s =
     ((\<forall>c\<in>set s. \<not> isWhiteSpace c) \<and>
      (\<exists>l d t. l \<noteq> [] \<and> d \<noteq> [] \<and> t \<noteq> [] \<and> s = l @ ''@'' @ d @ ''.'' @ t))"

text \<open>
  The outcomes of the calls when none of them throws: one per request, in order.
\<close>

definition outcomes :: "(nat \<Rightarrow> email_request \<Rightarrow> send_result) \<Rightarrow> email_request list
                          \<Rightarrow> send_result list" where
  "outcomes env rs = map (\<lambda>i. env i (rs ! i)) [0..<length rs]"

text \<open>At most one booking for each pair of court and time slot.\<close>

definition cellUnique :: "Booking list \<Rightarrow> bool" where
  "cellUnique bs = distinct (map (\<lambda>b. (court b, timeSlot b)) bs)"

section \<open>Concrete inputs\<close>

definition exampleBooking :: "int \<Rightarrow> string list \<Rightarrow> booking_type \<Rightarrow> string \<Rightarrow> Booking" where
  "exampleBooking c ps t d =
     \<lparr>id_field = ''b'', court = c, timeSlot = ''5:00-6:00 PM'', players = ps,
      type = t, date = d\<rparr>"

definition whitespaceBookings :: "Booking list" where
  "whitespaceBookings =
     [exampleBooking 1 [''Al''] Singles ''2024-01-07'',
      exampleBooking 2 ['' Al''] Singles ''2024-01-07'']"

definition courtBookings :: "Booking list" where
  "courtBookings =
     [exampleBooking 3 [''Ann'', ''Bob''] Singles ''2024-01-07'',
      exampleBooking 1 [''Ann'', ''Cy''] Singles ''2024-01-14'']"

definition yearBookings :: "Booking list" where
  "yearBookings =
     [exampleBooking 1 [''Ann'', ''Bob''] Singles ''2024-01-05'',
      exampleBooking 2 [''Ann'', ''Cy''] Singles ''2023-12-30'']"

definition rankBookings :: "Booking list" where
  "rankBookings =
     [exampleBooking 1 [''Ann'', ''Bob''] Singles ''2024-01-07'',
      exampleBooking 2 [''Ann'', ''Bob''] Singles ''2024-01-07'',
      exampleBooking 3 [''Ann'', ''Bob''] Singles ''2024-01-07'',
      exampleBooking 1 [''Bob'', ''Cy''] Singles ''2024-01-14'',
      exampleBooking 2 [''Bob'', '' ''] Singles ''2024-01-14'']"

definition duplicateBookings :: "Booking list" where
  "duplicateBookings = [exampleBooking 2 [''Ann'', ''Ann'', ''Bob''] Doubles ''2024-01-07'']"

definition blankBooking :: Booking where
  "blankBooking = exampleBooking 3 ['' '', ''''] Singles ''2024-01-21''"

definition paddedState :: email_state where
  "paddedState =
     \<lparr>isOpen = True, emailAddresses = ['' foo@bar.com''],
      emailTemplate = \<lparr>subject = ''Booking'', message = ''See you on court 1''\<rparr>,
      isSending = False, sendStatus = Idle, errorMessage = []\<rparr>"

definition mixedState :: email_state where
  "mixedState =
     \<lparr>isOpen = True, emailAddresses = [''foo@bar'', ''foo@bar.com'', ''a b@c.d'', ''''],
      emailTemplate = \<lparr>subject = ''Booking'', message = ''See you on court 1''\<rparr>,
      isSending = False, sendStatus = Idle, errorMessage = []\<rparr>"

definition invalidState :: email_state where
  "invalidState =
     \<lparr>isOpen = True, emailAddresses = [''foo@bar'', '' ''],
      emailTemplate = \<lparr>subject = ''Booking'', message = ''See you on court 1''\<rparr>,
      isSending = False, sendStatus = Idle, errorMessage = []\<rparr>"

definition threeState :: email_state where
  "threeState =
     \<lparr>isOpen = True, emailAddresses = [''ann@club.org'', ''bob@club.org'', ''cy@club.org''],
      emailTemplate = \<lparr>subject = ''Booking'', message = ''See you on court 1''\<rparr>,
      isSending = False, sendStatus = Idle, errorMessage = []\<rparr>"

definition alwaysFulfilled :: "nat \<Rightarrow> email_request \<Rightarrow> send_result" where
  "alwaysFulfilled i r = Fulfilled"

definition secondRejected :: "nat \<Rightarrow> email_request \<Rightarrow> send_result" where
  "secondRejected i r = (if i = 1 then Rejected else Fulfilled)"

definition editingState :: "string list \<Rightarrow> app_state" where
  "editingState inputs =
     \<lparr>bookings = courtBookings @ [exampleBooking 2 [''Dee'', ''Eve''] Singles ''2024-01-07''],
      selectedDate = ''2024-01-21'', isDialogOpen = True,
      editingBooking = Some \<lparr>editing_court = 2, editing_timeSlot = ''5:00-6:00 PM'',
                              editing_type = Singles\<rparr>,
      playerInputs = inputs\<rparr>"

section \<open>Lemmas\<close>

lemma map_of_map_set: "map_of (map_set k v m) = (map_of m)(k \<mapsto> v)"
  by (induction m) auto

lemma keys_map_set:
  "map fst (map_set k v m) = (if k \<in> fst ` set m then map fst m else map fst m @ [k])"
  by (induction m) force+

lemma distinct_map_set: "distinct (map fst m) \<Longrightarrow> distinct (map fst (map_set k v m))"
  by (simp add: keys_map_set)

lemma processPlayer_alt:
  "processPlayer tv b p m =
     (if \<not> truthy (trim p) then m
      else map_set p (bumpStat tv b (case map_get m p of None \<Rightarrow> initStat p b | Some s \<Rightarrow> s)) m)"
  by (auto simp: processPlayer_def bumpStat_def initStat_def Let_def split: option.splits)

lemma groupingPass_entries:
  "fold (processBooking tv) bs m = fold (\<lambda>e. processPlayer tv (fst e) (snd e)) (entries bs) m"
  by (induction bs arbitrary: m) (auto simp: entries_def processBooking_def fold_map comp_def)

lemma map_of_processPlayer:
  "map_of (processPlayer tv b p m) k = keyStep tv k (b, p) (map_of m k)"
  by (auto simp: processPlayer_alt keyStep_def map_of_map_set map_get_def split: option.splits)

lemma map_of_fold_entries:
  "map_of (fold (\<lambda>e. processPlayer tv (fst e) (snd e)) es m) k = fold (keyStep tv k) es (map_of m k)"
  by (induction es arbitrary: m) (auto simp: map_of_processPlayer)

lemma distinct_fold_entries:
  "distinct (map fst m) \<Longrightarrow> distinct (map fst (fold (\<lambda>e. processPlayer tv (fst e) (snd e)) es m))"
  by (induction es arbitrary: m) (auto simp: processPlayer_alt distinct_map_set)

lemma map_of_groupingPass:
  "map_of (groupingPass tv bs) k = fold (keyStep tv k) (entries bs) None"
  by (simp add: groupingPass_def groupingPass_entries map_of_fold_entries)

lemma distinct_groupingPass: "distinct (map fst (groupingPass tv bs))"
  by (simp add: groupingPass_def groupingPass_entries distinct_fold_entries)

lemma fold_keyStep_blank: "\<not> truthy (trim k) \<Longrightarrow> fold (keyStep tv k) es acc = acc"
  by (induction es arbitrary: acc) (auto simp: keyStep_def)

lemma fold_keyStep_Some:
  "truthy (trim k) \<Longrightarrow>
   fold (keyStep tv k) es (Some s) =
     Some (fold (bumpStat tv) (map fst (filter (\<lambda>e. snd e = k) es)) s)"
  by (induction es arbitrary: s) (auto simp: keyStep_def)

lemma fold_keyStep_None:
  "truthy (trim k) \<Longrightarrow>
   fold (keyStep tv k) es None =
     (case map fst (filter (\<lambda>e. snd e = k) es) of [] \<Rightarrow> None
      | b # r \<Rightarrow> Some (fold (bumpStat tv) (b # r) (initStat k b)))"
  by (induction es) (auto simp: keyStep_def fold_keyStep_Some)

lemma map_of_groupingPass_statOf: "map_of (groupingPass tv bs) k = statOf tv bs k"
  by (simp add: map_of_groupingPass statOf_def appearances_def fold_keyStep_blank fold_keyStep_None)

lemma set_insertBy: "set (insertBy cmp x xs) = insert x (set xs)"
  by (induction xs) auto

lemma set_sortBy: "set (sortBy cmp xs) = set xs"
  unfolding sortBy_def by (induction xs) (auto simp: set_insertBy)

lemma in_groupingPass_iff: "(k, s) \<in> set (groupingPass tv bs) \<longleftrightarrow> statOf tv bs k = Some s"
  using distinct_groupingPass [of tv bs] map_of_groupingPass_statOf [of tv bs k]
  by (metis map_of_eq_Some_iff)

lemma in_output_iff:
  "s \<in> set (calculatePlayerStats tv bs) \<longleftrightarrow>
     (\<exists>k s0. statOf tv bs k = Some s0 \<and>
        s = s0\<lparr>favoriteCourt := pickFavorite (courtCountsFor bs k)\<rparr>)"
  by (force simp: calculatePlayerStats_def set_sortBy map_values_def favoriteCourtPass_def
       in_groupingPass_iff [symmetric] image_iff)

lemma fold_bump_name: "name (fold (bumpStat tv) bs s) = name s"
  by (induction bs arbitrary: s) (auto simp: bumpStat_def)

lemma fold_bump_total: "totalMatches (fold (bumpStat tv) bs s) = totalMatches s + length bs"
  by (induction bs arbitrary: s) (auto simp: bumpStat_def)

lemma fold_bump_hours:
  "totalHours (fold (bumpStat tv) bs s) = totalHours s + sum_list (map matchDuration bs)"
  by (induction bs arbitrary: s) (auto simp: bumpStat_def)

lemma fold_bump_singles:
  "singlesMatches (fold (bumpStat tv) bs s) =
     singlesMatches s + length (filter (\<lambda>b. type b = Singles) bs)"
  by (induction bs arbitrary: s) (auto simp: bumpStat_def)

lemma fold_bump_doubles:
  "doublesMatches (fold (bumpStat tv) bs s) =
     doublesMatches s + length (filter (\<lambda>b. type b \<noteq> Singles) bs)"
  by (induction bs arbitrary: s) (auto simp: bumpStat_def)

lemma lastPlayed_bump:
  "lastPlayed (bumpStat tv b s) =
     (if dateGt tv (date b) (lastPlayed s) then date b else lastPlayed s)"
  by (simp add: bumpStat_def)

lemma fold_bump_last_mem:
  "lastPlayed (fold (bumpStat tv) bs s) \<in> insert (lastPlayed s) (date ` set bs)"
proof (induction bs arbitrary: s)
  case Nil
  then show ?case by simp
next
  case (Cons b bs)
  have "lastPlayed (bumpStat tv b s) \<in> {lastPlayed s, date b}"
    by (simp add: lastPlayed_bump)
  with Cons.IH [of "bumpStat tv b s"] show ?case by auto
qed

lemma bump_last_ge:
  assumes "tv (lastPlayed s) = Some x"
  shows "\<exists>x'. tv (lastPlayed (bumpStat tv b s)) = Some x' \<and> x \<le> x' \<and>
           (\<forall>z. tv (date b) = Some z \<longrightarrow> z \<le> x')"
  using assms by (cases "tv (date b)") (auto simp: lastPlayed_bump dateGt_def)

lemma fold_bump_last_ge_init:
  "tv (lastPlayed s) = Some x \<Longrightarrow>
   \<exists>y. tv (lastPlayed (fold (bumpStat tv) bs s)) = Some y \<and> x \<le> y"
proof (induction bs arbitrary: s x)
  case Nil
  then show ?case by simp
next
  case (Cons b bs)
  from bump_last_ge [of tv s x b] Cons.prems
  obtain x' where x': "tv (lastPlayed (bumpStat tv b s)) = Some x'" "x \<le> x'"
    by blast
  from Cons.IH [of "bumpStat tv b s" x'] x' show ?case by fastforce
qed

lemma fold_bump_last_ge:
  "tv (lastPlayed s) = Some x \<Longrightarrow> b \<in> set bs \<Longrightarrow> tv (date b) = Some z \<Longrightarrow>
   \<exists>y. tv (lastPlayed (fold (bumpStat tv) bs s)) = Some y \<and> z \<le> y"
proof (induction bs arbitrary: s x)
  case Nil
  then show ?case by simp
next
  case (Cons a bs)
  from bump_last_ge [of tv s x a] Cons.prems(1)
  obtain x' where x': "tv (lastPlayed (bumpStat tv a s)) = Some x'" "x \<le> x'"
    and za: "\<forall>z. tv (date a) = Some z \<longrightarrow> z \<le> x'"
    by blast
  show ?case
  proof (cases "b = a")
    case True
    with Cons.prems za have "z \<le> x'" by simp
    with fold_bump_last_ge_init [of tv "bumpStat tv a s" x' bs] x'(1) show ?thesis by fastforce
  next
    case False
    with Cons.prems have "b \<in> set bs" by simp
    from Cons.IH [of "bumpStat tv a s" x'] x'(1) this Cons.prems(3) show ?thesis by simp
  qed
qed

lemma set_appearances: "set (appearances bs k) = {b \<in> set bs. k \<in> set (players b)}"
  by (auto simp: appearances_def entries_def image_iff)

lemma length_appearances:
  "length (appearances bs k) = sum_list (map (\<lambda>b. count_list (players b) k) bs)"
proof -
  have one: "length (filter ((\<lambda>e. snd e = k) \<circ> Pair b) ps) = count_list ps k" for b :: Booking and ps
    by (induction ps) auto
  show ?thesis
    unfolding appearances_def entries_def
    by (induction bs) (simp_all add: filter_map one)
qed

lemma courtCountsFor_tally:
  "fold (countCourt k) bs m = fold tallyStep (courtsOf bs k) m"
  by (induction bs arbitrary: m) (auto simp: countCourt_def tallyStep_def courtsOf_def)

lemma map_of_tallyStep:
  "map_of (tallyStep c m) = (map_of m)(c \<mapsto> (case map_of m c of None \<Rightarrow> 1 | Some n \<Rightarrow> n + 1))"
  by (auto simp: tallyStep_def map_of_map_set map_get_def split: option.splits)

lemma keys_tallyStep:
  "map fst (tallyStep c m) = (if c \<in> fst ` set m then map fst m else map fst m @ [c])"
  by (simp add: tallyStep_def keys_map_set)

lemma firstIndex_snoc_old: "k \<in> set cs \<Longrightarrow> firstIndex (cs @ [c]) k = firstIndex cs k"
  by (simp add: firstIndex_def takeWhile_append1) 

lemma firstIndex_snoc_new: "c \<notin> set cs \<Longrightarrow> firstIndex (cs @ [c]) c = length cs"
proof -
  assume "c \<notin> set cs"
  then have "takeWhile (\<lambda>x. x \<noteq> c) (cs @ [c]) = cs @ takeWhile (\<lambda>x. x \<noteq> c) [c]"
    by (intro takeWhile_append2) auto
  then show ?thesis by (simp add: firstIndex_def)
qed

lemma firstIndex_less: "k \<in> set cs \<Longrightarrow> firstIndex cs k < length cs"
  unfolding firstIndex_def by (induction cs) auto

lemma map_of_tally:
  "map_of (fold tallyStep cs []) c = (if c \<in> set cs then Some (count_list cs c) else None)"
  by (induction cs rule: rev_induct) (auto simp: map_of_tallyStep)

lemma keys_tally: "fst ` set (fold tallyStep cs []) = set cs"
proof -
  have "dom (map_of (fold tallyStep cs [])) = set cs"
    by (auto simp: map_of_tally dom_def)
  then show ?thesis by (simp add: dom_map_of_conv_image_fst)
qed

lemma keys_tally_snoc:
  "map fst (fold tallyStep (cs @ [c]) []) =
     (if c \<in> set cs then map fst (fold tallyStep cs [])
      else map fst (fold tallyStep cs []) @ [c])"
  by (simp add: keys_tallyStep keys_tally)

lemma distinct_tally: "distinct (map fst (fold tallyStep cs []))"
proof (induction cs rule: rev_induct)
  case Nil
  then show ?case by simp
next
  case (snoc c cs)
  then show ?case
    using keys_tally [of cs] by (simp only: keys_tally_snoc) auto
qed

lemma sorted_tally:
  "sorted_wrt (\<lambda>a b. firstIndex cs a < firstIndex cs b) (map fst (fold tallyStep cs []))"
proof (induction cs rule: rev_induct)
  case Nil
  then show ?case by simp
next
  case (snoc c cs)
  let ?ks = "map fst (fold tallyStep cs [])"
  have ks: "set ?ks = set cs" using keys_tally [of cs] by simp
  have old: "sorted_wrt (\<lambda>a b. firstIndex (cs @ [c]) a < firstIndex (cs @ [c]) b) ?ks"
    using snoc.IH
    by (rule sorted_wrt_mono_rel [rotated]) (simp add: keys_tally firstIndex_snoc_old)
  show ?case
  proof (cases "c \<in> set cs")
    case True
    with old show ?thesis by (simp only: keys_tally_snoc if_True)
  next
    case False
    have "firstIndex (cs @ [c]) a < firstIndex (cs @ [c]) c" if "a \<in> set ?ks" for a
    proof -
      from that ks have "a \<in> set cs" by simp
      with False show ?thesis
        by (simp add: firstIndex_snoc_old firstIndex_snoc_new firstIndex_less)
    qed
    then have "\<forall>a\<in>set ?ks. firstIndex (cs @ [c]) a < firstIndex (cs @ [c]) c"
      by blast
    with old False show ?thesis
      by (simp only: keys_tally_snoc if_False sorted_wrt_append) simp
  qed
qed

lemma tally_entries:
  "(c, n) \<in> set (fold tallyStep cs []) \<longleftrightarrow> c \<in> set cs \<and> n = count_list cs c"
  using distinct_tally [of cs] map_of_tally [of cs c]
  by (metis map_of_eq_Some_iff option.distinct(1) option.inject)

lemma fold_pickStep:
  "fold pickStep kvs (m, f) = (m, f) \<and> (\<forall>(k, v) \<in> set kvs. v \<le> m) \<or>
   (\<exists>pre k v post. kvs = pre @ (k, v) # post \<and> fold pickStep kvs (m, f) = (v, k) \<and> m < v \<and>
      (\<forall>(k', v') \<in> set pre. v' < v) \<and> (\<forall>(k', v') \<in> set post. v' \<le> v))"
proof (induction kvs arbitrary: m f)
  case Nil
  then show ?case by simp
next
  case (Cons e kvs)
  obtain k v where e: "e = (k, v)" by (cases e)
  show ?case
  proof (cases "m < v")
    case True
    then have step: "fold pickStep (e # kvs) (m, f) = fold pickStep kvs (v, k)"
      by (simp add: e pickStep_def)
    from Cons.IH [of v k] show ?thesis
    proof
      assume a: "fold pickStep kvs (v, k) = (v, k) \<and> (\<forall>(k, v') \<in> set kvs. v' \<le> v)"
      have "e # kvs = [] @ (k, v) # kvs" by (simp add: e)
      with a True step show ?thesis by (metis (no_types, lifting) empty_iff list.set(1))
    next
      assume "\<exists>pre k' v' post. kvs = pre @ (k', v') # post \<and> fold pickStep kvs (v, k) = (v', k') \<and>
         v < v' \<and> (\<forall>(k'', v'') \<in> set pre. v'' < v') \<and> (\<forall>(k'', v'') \<in> set post. v'' \<le> v')"
      then obtain pre k' v' post where p: "kvs = pre @ (k', v') # post"
        "fold pickStep kvs (v, k) = (v', k')" "v < v'"
        "\<forall>(k'', v'') \<in> set pre. v'' < v'" "\<forall>(k'', v'') \<in> set post. v'' \<le> v'"
        by blast
      have "e # kvs = (e # pre) @ (k', v') # post" by (simp add: p(1))
      moreover have "\<forall>(k'', v'') \<in> set (e # pre). v'' < v'" using p(3,4) by (simp add: e)
      moreover have "m < v'" using True p(3) by simp
      ultimately show ?thesis using step p(2,5) by metis
    qed
  next
    case False
    then have step: "fold pickStep (e # kvs) (m, f) = fold pickStep kvs (m, f)"
      by (simp add: e pickStep_def)
    from Cons.IH [of m f] show ?thesis
    proof
      assume "fold pickStep kvs (m, f) = (m, f) \<and> (\<forall>(k, v') \<in> set kvs. v' \<le> m)"
      with False step show ?thesis by (simp add: e)
    next
      assume "\<exists>pre k' v' post. kvs = pre @ (k', v') # post \<and> fold pickStep kvs (m, f) = (v', k') \<and>
         m < v' \<and> (\<forall>(k'', v'') \<in> set pre. v'' < v') \<and> (\<forall>(k'', v'') \<in> set post. v'' \<le> v')"
      then obtain pre k' v' post where p: "kvs = pre @ (k', v') # post"
        "fold pickStep kvs (m, f) = (v', k')" "m < v'"
        "\<forall>(k'', v'') \<in> set pre. v'' < v'" "\<forall>(k'', v'') \<in> set post. v'' \<le> v'"
        by blast
      have "e # kvs = (e # pre) @ (k', v') # post" by (simp add: p(1))
      moreover have "\<forall>(k'', v'') \<in> set (e # pre). v'' < v'" using p(3,4) False by (simp add: e)
      ultimately show ?thesis using step p(2,3,5) by metis
    qed
  qed
qed

lemma count_list_pos: "c \<in> set cs \<Longrightarrow> 0 < count_list cs c"
  by (induction cs) auto

lemma pickFavorite_tally:
  assumes "cs \<noteq> []"
  defines "fav \<equiv> pickFavorite (fold tallyStep cs [])"
  shows "fav \<in> set cs"
    and "c \<in> set cs \<Longrightarrow> count_list cs c \<le> count_list cs fav"
    and "c \<in> set cs \<Longrightarrow> count_list cs c = count_list cs fav \<Longrightarrow>
           firstIndex cs fav \<le> firstIndex cs c"
proof -
  let ?kvs = "fold tallyStep cs []"
  from assms(1) obtain c0 where c0: "c0 \<in> set cs" by (cases cs) auto
  then have "(c0, count_list cs c0) \<in> set ?kvs" by (simp add: tally_entries)
  moreover have "0 < count_list cs c0" using c0 by (rule count_list_pos)
  ultimately have "\<not> (\<forall>(k, v) \<in> set ?kvs. v \<le> 0)" by fastforce
  with fold_pickStep [of ?kvs 0 1]
  obtain pre k v post where p: "?kvs = pre @ (k, v) # post"
    "fold pickStep ?kvs (0, 1) = (v, k)"
    "\<forall>(k', v') \<in> set pre. v' < v" "\<forall>(k', v') \<in> set post. v' \<le> v"
    by blast
  have fav: "fav = k" by (simp add: fav_def pickFavorite_def p(2))
  have "(k, v) \<in> set ?kvs" by (subst p(1)) simp
  then have kv: "k \<in> set cs" "v = count_list cs k" by (simp_all add: tally_entries)
  show "fav \<in> set cs" by (simp add: fav kv)
  have mem: "(c, count_list cs c) \<in> set pre \<or> c = k \<or> (c, count_list cs c) \<in> set post"
    if "c \<in> set cs" for c
  proof -
    from that have "(c, count_list cs c) \<in> set ?kvs" by (simp add: tally_entries)
    then have "(c, count_list cs c) \<in> set (pre @ (k, v) # post)" by (simp only: p(1))
    then show ?thesis by auto
  qed
  show "count_list cs c \<le> count_list cs fav" if "c \<in> set cs"
    using mem [OF that] p(3,4) by (auto simp: fav kv(2))
  show "firstIndex cs fav \<le> firstIndex cs c"
    if c: "c \<in> set cs" and tie: "count_list cs c = count_list cs fav"
  proof -
    from mem [OF c] p(3) tie have "c = k \<or> (c, count_list cs c) \<in> set post"
      by (auto simp: fav kv(2))
    then show ?thesis
    proof
      assume "c = k" then show ?thesis by (simp add: fav)
    next
      assume "(c, count_list cs c) \<in> set post"
      then have "c \<in> set (map fst post)" by force
      moreover have "sorted_wrt (\<lambda>a b. firstIndex cs a < firstIndex cs b)
                       (map fst pre @ k # map fst post)"
        using sorted_tally [of cs] by (simp add: p(1))
      ultimately have "firstIndex cs k < firstIndex cs c"
        by (auto simp: sorted_wrt_append)
      then show ?thesis by (simp add: fav)
    qed
  qed
qed

lemma sorted_insertBy:
  "sorted_wrt (\<lambda>a b. totalMatches b \<le> totalMatches a) xs \<Longrightarrow>
   sorted_wrt (\<lambda>a b. totalMatches b \<le> totalMatches a) (insertBy byTotalMatches x xs)"
  by (induction xs) (auto simp: set_insertBy byTotalMatches_def)

lemma sorted_sortBy:
  "sorted_wrt (\<lambda>a b. totalMatches b \<le> totalMatches a) (sortBy byTotalMatches xs)"
  unfolding sortBy_def by (induction xs) (auto simp: sorted_insertBy)

lemma distinct_map_insertBy:
  "distinct (map f (insertBy cmp x xs)) = distinct (map f (x # xs))"
  by (induction xs) (auto simp: set_insertBy)

lemma distinct_map_sortBy: "distinct (map f (sortBy cmp xs)) = distinct (map f xs)"
  unfolding sortBy_def by (induction xs) (auto simp: distinct_map_insertBy set_sortBy [unfolded sortBy_def])

lemma statOf_name: "statOf tv bs k = Some s \<Longrightarrow> name s = k"
  by (auto simp: statOf_def fold_bump_name initStat_def bumpStat_def split: if_splits list.splits)

lemma statOf_Some_iff:
  "(\<exists>s. statOf tv bs k = Some s) \<longleftrightarrow> truthy (trim k) \<and> (\<exists>b\<in>set bs. k \<in> set (players b))"
proof -
  have "appearances bs k \<noteq> [] \<longleftrightarrow> (\<exists>b\<in>set bs. k \<in> set (players b))"
    using set_appearances [of bs k] by (metis (mono_tags, lifting) Collect_empty_eq empty_iff mem_Collect_eq set_empty)
  then show ?thesis by (auto simp: statOf_def split: list.splits)
qed

lemma statOf_total:
  "statOf tv bs k = Some s \<Longrightarrow> totalMatches s = sum_list (map (\<lambda>b. count_list (players b) k) bs)"
  using fold_bump_total [of tv "appearances bs k" "initStat k (hd (appearances bs k))"]
  by (auto simp: statOf_def length_appearances [symmetric] initStat_def split: if_splits list.splits)

lemma names_output:
  "map name (map_values (favoriteCourtPass bs (groupingPass tv bs))) = map fst (groupingPass tv bs)"
proof -
  have "name (snd e) = fst e" if "e \<in> set (groupingPass tv bs)" for e
    using that in_groupingPass_iff [of "fst e" "snd e" tv bs] statOf_name by simp
  then show ?thesis
    by (auto simp: map_values_def favoriteCourtPass_def split_beta)
qed

lemma output_elem:
  assumes "s \<in> set (calculatePlayerStats tv bs)"
  obtains s0 where "statOf tv bs (name s) = Some s0"
    and "s = s0\<lparr>favoriteCourt := pickFavorite (courtCountsFor bs (name s))\<rparr>"
proof -
  from assms obtain k s0 where k: "statOf tv bs k = Some s0"
    "s = s0\<lparr>favoriteCourt := pickFavorite (courtCountsFor bs k)\<rparr>"
    by (auto simp: in_output_iff)
  from statOf_name [OF k(1)] k(2) have "name s = k" by simp
  with k that show ?thesis by simp
qed

lemma statOf_SomeD:
  assumes "statOf tv bs k = Some s"
  shows "truthy (trim k)" and "appearances bs k \<noteq> []"
    and "s = fold (bumpStat tv) (appearances bs k) (initStat k (hd (appearances bs k)))"
  using assms by (auto simp: statOf_def split: if_splits list.splits)

lemma sum_duration_appearances:
  "sum_list (map matchDuration (appearances bs k)) =
   sum_list (map (\<lambda>b. count_list (players b) k * matchDuration b) bs)"
proof -
  have one: "sum_list (map (matchDuration \<circ> fst) (filter (\<lambda>e. snd e = k) (map (Pair b) ps))) =
             count_list ps k * matchDuration b" for b :: Booking and ps
    by (induction ps) auto
  show ?thesis
    unfolding appearances_def entries_def
    by (induction bs) (simp_all add: one)
qed

lemma statOf_hours:
  assumes "statOf tv bs k = Some s"
  shows "totalHours s = sum_list (map (\<lambda>b. count_list (players b) k * matchDuration b) bs)"
  by (subst statOf_SomeD(3) [OF assms])
     (simp add: fold_bump_hours initStat_def sum_duration_appearances)

lemma singles_doubles_split:
  "length (filter (\<lambda>b. type b = Singles) xs) +
   length (filter (\<lambda>b. type b \<noteq> Singles) xs) = length xs"
  by (induction xs) auto

lemma statOf_singles_doubles:
  assumes "statOf tv bs k = Some s"
  shows "singlesMatches s + doublesMatches s = totalMatches s"
  using singles_doubles_split [of "appearances bs k"]
  by (subst (1 2 3) statOf_SomeD(3) [OF assms])
     (simp add: fold_bump_singles fold_bump_doubles fold_bump_total initStat_def)

lemma statOf_last:
  assumes "statOf tv bs k = Some s"
  shows "\<exists>b\<in>set bs. k \<in> set (players b) \<and> lastPlayed s = date b"
proof -
  from assms obtain b r where a: "appearances bs k = b # r"
    and s: "s = fold (bumpStat tv) (b # r) (initStat k b)"
    by (auto simp: statOf_def split: if_splits list.splits)
  have "lastPlayed s \<in> insert (lastPlayed (initStat k b)) (date ` set (b # r))"
    unfolding s by (rule fold_bump_last_mem)
  then have "lastPlayed s \<in> date ` set (appearances bs k)"
    by (simp add: a initStat_def)
  then show ?thesis by (auto simp: set_appearances)
qed

lemma statOf_last_max:
  assumes "statOf tv bs k = Some s"
    and "\<forall>b\<in>set bs. k \<in> set (players b) \<longrightarrow> tv (date b) \<noteq> None"
  shows "\<exists>y. tv (lastPlayed s) = Some y \<and>
           (\<forall>b\<in>set bs. k \<in> set (players b) \<longrightarrow> (\<forall>z. tv (date b) = Some z \<longrightarrow> z \<le> y))"
proof -
  from assms(1) obtain b r where a: "appearances bs k = b # r"
    and s: "s = fold (bumpStat tv) (b # r) (initStat k b)"
    by (auto simp: statOf_def split: if_splits list.splits)
  have "b \<in> set (appearances bs k)" by (simp add: a)
  then have "b \<in> set bs" "k \<in> set (players b)" by (simp_all add: set_appearances)
  with assms(2) obtain x where x: "tv (lastPlayed (initStat k b)) = Some x"
    by (auto simp: initStat_def)
  from fold_bump_last_ge_init [of tv "initStat k b" x "b # r"] x
  obtain y where y: "tv (lastPlayed s) = Some y" unfolding s by blast
  have "z \<le> y" if "b' \<in> set bs" "k \<in> set (players b')" "tv (date b') = Some z" for b' z
  proof -
    from that have "b' \<in> set (b # r)" using a set_appearances [of bs k] by auto
    from fold_bump_last_ge [of tv "initStat k b" x b' "b # r" z] x this that(3) y
    show ?thesis unfolding s by auto
  qed
  with y show ?thesis by blast
qed

lemma map_get_courtCountsFor:
  "map_get (courtCountsFor bs k) c =
     (if c \<in> set (courtsOf bs k) then Some (count_list (courtsOf bs k) c) else None)"
  by (simp add: map_get_def courtCountsFor_def courtCountsFor_tally map_of_tally)

lemma count_courtsOf:
  "count_list (courtsOf bs k) c = length (filter (\<lambda>b. k \<in> set (players b) \<and> court b = c) bs)"
  unfolding courtsOf_def by (induction bs) auto

lemma courtsOf_nonempty: "statOf tv bs k = Some s \<Longrightarrow> courtsOf bs k \<noteq> []"
  using statOf_Some_iff [of tv bs k] by (auto simp: courtsOf_def filter_empty_conv)

lemma processBooking_blank:
  "\<forall>p\<in>set (players b). \<not> truthy (trim p) \<Longrightarrow> processBooking tv b m = m"
proof -
  have "\<forall>p\<in>set ps. \<not> truthy (trim p) \<Longrightarrow> fold (processPlayer tv b) ps m = m" for ps
    by (induction ps) (auto simp: processPlayer_def)
  then show "\<forall>p\<in>set (players b). \<not> truthy (trim p) \<Longrightarrow> ?thesis"
    by (simp add: processBooking_def)
qed

lemma processBooking_dropBlank: "processBooking tv (dropBlank b) m = processBooking tv b m"
proof -
  have step: "processPlayer tv (dropBlank b) p m' = processPlayer tv b p m'" for p m'
  proof -
    have "date (dropBlank b) = date b" "type (dropBlank b) = type b"
      by (simp_all add: dropBlank_def)
    then have "initStat p (dropBlank b) = initStat p b"
      and "bumpStat tv (dropBlank b) = bumpStat tv b"
      by (simp_all add: initStat_def bumpStat_def matchDuration_def fun_eq_iff)
    then show ?thesis
      by (simp add: processPlayer_alt split: option.split)
  qed
  have "fold (processPlayer tv b) (filter (\<lambda>p. truthy (trim p)) ps) m = fold (processPlayer tv b) ps m" for ps
    by (induction ps arbitrary: m) (auto simp: processPlayer_def)
  moreover have "processPlayer tv (dropBlank b) = processPlayer tv b"
    by (simp add: fun_eq_iff step)
  moreover have "players (dropBlank b) = filter (\<lambda>p. truthy (trim p)) (players b)"
    by (simp add: dropBlank_def)
  ultimately show ?thesis
    by (simp add: processBooking_def)
qed

lemma groupingPass_dropBlank: "groupingPass tv (map dropBlank bs) = groupingPass tv bs"
proof -
  have "fold (processBooking tv) (map dropBlank bs) m = fold (processBooking tv) bs m" for m
    by (induction bs arbitrary: m) (auto simp: processBooking_dropBlank)
  then show ?thesis by (simp add: groupingPass_def)
qed

lemma groupingPass_skip_blank:
  "\<forall>p\<in>set (players b). \<not> truthy (trim p) \<Longrightarrow>
   groupingPass tv (xs @ b # ys) = groupingPass tv (xs @ ys)"
  by (simp add: groupingPass_def processBooking_blank)

lemma courtCountsFor_dropBlank:
  "truthy (trim k) \<Longrightarrow> courtCountsFor (map dropBlank bs) k = courtCountsFor bs k"
proof -
  assume k: "truthy (trim k)"
  have "fold (countCourt k) (map dropBlank bs) m = fold (countCourt k) bs m" for m
    by (induction bs arbitrary: m) (auto simp: countCourt_def dropBlank_def k)
  then show ?thesis by (simp add: courtCountsFor_def)
qed

lemma courtCountsFor_skip_blank:
  "truthy (trim k) \<Longrightarrow> \<forall>p\<in>set (players b). \<not> truthy (trim p) \<Longrightarrow>
   courtCountsFor (xs @ b # ys) k = courtCountsFor (xs @ ys) k"
  by (auto simp: courtCountsFor_def countCourt_def)

lemma groupingPass_keys_truthy: "(k, s) \<in> set (groupingPass tv bs) \<Longrightarrow> truthy (trim k)"
  by (simp add: in_groupingPass_iff statOf_SomeD(1))

lemma favoriteCourtPass_cong:
  "(\<And>k s. (k, s) \<in> set m \<Longrightarrow> courtCountsFor bs k = courtCountsFor bs' k) \<Longrightarrow>
   favoriteCourtPass bs m = favoriteCourtPass bs' m"
  unfolding favoriteCourtPass_def by (rule map_cong) auto

lemma calculate_dropBlank:
  "calculatePlayerStats tv (map dropBlank bs) = calculatePlayerStats tv bs"
proof -
  have "favoriteCourtPass (map dropBlank bs) (groupingPass tv bs) =
        favoriteCourtPass bs (groupingPass tv bs)"
    by (rule favoriteCourtPass_cong) (simp add: courtCountsFor_dropBlank groupingPass_keys_truthy)
  then show ?thesis by (simp add: calculatePlayerStats_def groupingPass_dropBlank)
qed

lemma calculate_skip_blank:
  assumes "\<forall>p\<in>set (players b). \<not> truthy (trim p)"
  shows "calculatePlayerStats tv (xs @ b # ys) = calculatePlayerStats tv (xs @ ys)"
proof -
  have "favoriteCourtPass (xs @ b # ys) (groupingPass tv (xs @ ys)) =
        favoriteCourtPass (xs @ ys) (groupingPass tv (xs @ ys))"
    by (rule favoriteCourtPass_cong)
       (simp add: courtCountsFor_skip_blank [OF _ assms] groupingPass_keys_truthy)
  then show ?thesis
    by (simp add: calculatePlayerStats_def groupingPass_skip_blank [OF assms])
qed

section \<open>Claims about calculatePlayerStats\<close>

text \<open>
  C1, as stated: two player entries feed the same PlayerStat exactly when their trimmed
  names are equal. The map of the first pass is keyed by the entry as written
  (\<open>statsMap.get(playerName)\<close>, \<open>statsMap.set(playerName, ...)\<close>); \<open>trim\<close> only decides
  whether an entry is blank. The entries \<open>''Al''\<close> and \<open>'' Al''\<close> have the same trimmed
  name and get one PlayerStat each.
\<close>

theorem whitespace_names_not_merged:
  "trim '' Al'' = trim ''Al'' \<and>
   map name (calculatePlayerStats isoTime whitespaceBookings) = [''Al'', '' Al''] \<and>
   map totalMatches (calculatePlayerStats isoTime whitespaceBookings) = [1, 1]"
  by code_simp

text \<open>
  C1, amended: two non-blank player entries feed the same PlayerStat exactly when they
  are the same string, untrimmed. The names of the output are pairwise different, they
  are exactly the non-blank entries of the bookings, and the PlayerStat of a name counts
  the entries equal to that very string.
\<close>

theorem stats_grouped_by_raw_name:
  "distinct (map name (calculatePlayerStats tv bs)) \<and>
   set (map name (calculatePlayerStats tv bs)) =
     {n. truthy (trim n) \<and> (\<exists>b\<in>set bs. n \<in> set (players b))} \<and>
   (\<forall>s\<in>set (calculatePlayerStats tv bs).
      totalMatches s = sum_list (map (\<lambda>b. count_list (players b) (name s)) bs))"
proof (intro conjI ballI)
  show "distinct (map name (calculatePlayerStats tv bs))"
    by (simp add: calculatePlayerStats_def distinct_map_sortBy names_output distinct_groupingPass)
  have "set (map name (calculatePlayerStats tv bs)) = fst ` set (groupingPass tv bs)"
    using names_output [of bs tv]
    by (metis calculatePlayerStats_def set_map set_sortBy)
  also have "\<dots> = {n. \<exists>s. statOf tv bs n = Some s}"
    by (force simp: in_groupingPass_iff [symmetric])
  finally show "set (map name (calculatePlayerStats tv bs)) =
     {n. truthy (trim n) \<and> (\<exists>b\<in>set bs. n \<in> set (players b))}"
    by (simp add: statOf_Some_iff)
next
  fix s assume "s \<in> set (calculatePlayerStats tv bs)"
  then obtain s0 where "statOf tv bs (name s) = Some s0"
    and "s = s0\<lparr>favoriteCourt := pickFavorite (courtCountsFor bs (name s))\<rparr>"
    by (rule output_elem)
  then show "totalMatches s = sum_list (map (\<lambda>b. count_list (players b) (name s)) bs)"
    using statOf_total [of tv bs "name s" s0] by (metis PlayerStat.select_convs(2) PlayerStat.surjective PlayerStat.update_convs(6))
qed

theorem stats_grouped_by_raw_name_witness:
  "distinct (map name (calculatePlayerStats isoTime whitespaceBookings)) \<and>
   map name (calculatePlayerStats isoTime whitespaceBookings) = [''Al'', '' Al''] \<and>
   map totalMatches (calculatePlayerStats isoTime whitespaceBookings) =
     [sum_list (map (\<lambda>b. count_list (players b) ''Al'') whitespaceBookings),
      sum_list (map (\<lambda>b. count_list (players b) '' Al'') whitespaceBookings)]"
proof -
  have d: "distinct (map name (calculatePlayerStats isoTime whitespaceBookings))"
    using stats_grouped_by_raw_name [of isoTime whitespaceBookings] by blast
  have n: "map name (calculatePlayerStats isoTime whitespaceBookings) = [''Al'', '' Al'']"
    by code_simp
  have t: "map totalMatches (calculatePlayerStats isoTime whitespaceBookings) =
     [sum_list (map (\<lambda>b. count_list (players b) ''Al'') whitespaceBookings),
      sum_list (map (\<lambda>b. count_list (players b) '' Al'') whitespaceBookings)]"
    by code_simp
  from d n t show ?thesis by blast
qed

text \<open>
  C2: for every player of the output, \<open>favoriteCourt\<close> is a court of the bookings whose
  player list contains the player, no court of those bookings occurs more often, and
  among the courts that occur as often it is the one met first in the scan of the
  bookings in input order. With the courts met in the order 3, 1, once each, the
  favourite is 3.
\<close>

theorem favoriteCourt_most_frequent_first_seen:
  assumes "s \<in> set (calculatePlayerStats tv bs)"
  shows "favoriteCourt s \<in> set (courtsOf bs (name s)) \<and>
         (\<forall>c\<in>set (courtsOf bs (name s)).
            count_list (courtsOf bs (name s)) c
              \<le> count_list (courtsOf bs (name s)) (favoriteCourt s)) \<and>
         (\<forall>c\<in>set (courtsOf bs (name s)).
            count_list (courtsOf bs (name s)) c
              = count_list (courtsOf bs (name s)) (favoriteCourt s) \<longrightarrow>
            firstIndex (courtsOf bs (name s)) (favoriteCourt s)
              \<le> firstIndex (courtsOf bs (name s)) c)"
proof -
  from assms obtain s0 where s0: "statOf tv bs (name s) = Some s0"
    and s: "s = s0\<lparr>favoriteCourt := pickFavorite (courtCountsFor bs (name s))\<rparr>"
    by (rule output_elem)
  have fav: "favoriteCourt s = pickFavorite (fold tallyStep (courtsOf bs (name s)) [])"
    by (subst s) (simp add: courtCountsFor_def courtCountsFor_tally)
  have ne: "courtsOf bs (name s) \<noteq> []"
    using s0 by (rule courtsOf_nonempty)
  show ?thesis
    unfolding fav using pickFavorite_tally [OF ne] by blast
qed

theorem favoriteCourt_most_frequent_first_seen_witness:
  "\<lparr>name = ''Ann'', totalMatches = 2, singlesMatches = 2, doublesMatches = 0,
     totalHours = 2, favoriteCourt = 3, lastPlayed = ''2024-01-14''\<rparr>
     \<in> set (calculatePlayerStats isoTime courtBookings) \<and>
   courtsOf courtBookings ''Ann'' = [3, 1] \<and>
   (3::int) \<in> set (courtsOf courtBookings ''Ann'') \<and>
   count_list [3, 1] (1::int) = count_list [3, 1] (3::int) \<and>
   firstIndex [3, 1] (3::int) \<le> firstIndex [3, 1] (1::int)"
proof -
  let ?s = "\<lparr>name = ''Ann'', totalMatches = 2, singlesMatches = 2, doublesMatches = 0,
     totalHours = 2, favoriteCourt = 3, lastPlayed = ''2024-01-14''\<rparr>"
  have mem: "?s \<in> set (calculatePlayerStats isoTime courtBookings)" by code_simp
  have cs: "courtsOf courtBookings ''Ann'' = [3, 1]" by code_simp
  have tie: "count_list [3, 1] (1::int) = count_list [3, 1] (3::int)" by simp
  from favoriteCourt_most_frequent_first_seen [OF mem]
  have "(3::int) \<in> set (courtsOf courtBookings ''Ann'')"
    and "\<forall>c\<in>set (courtsOf courtBookings ''Ann'').
            count_list (courtsOf courtBookings ''Ann'') c
              = count_list (courtsOf courtBookings ''Ann'') 3 \<longrightarrow>
            firstIndex (courtsOf courtBookings ''Ann'') 3
              \<le> firstIndex (courtsOf courtBookings ''Ann'') c"
    by simp_all
  then have "(3::int) \<in> set (courtsOf courtBookings ''Ann'')"
    and "firstIndex [3, 1] (3::int) \<le> firstIndex [3, 1] (1::int)"
    using tie by (simp_all add: cs)
  with mem cs tie show ?thesis by blast
qed

text \<open>
  C3: for every player of the output whose bookings all carry a calendar date (a string
  \<open>new Date\<close> accepts), \<open>lastPlayed\<close> is the date of one of the bookings the player appears
  in, and no such booking has a later time value; the comparison is the one of the
  parsed dates, not of the strings. Bookings dated 2023-12-30 and 2024-01-05 give
  \<open>lastPlayed = 2024-01-05\<close>, in either input order.
\<close>

theorem lastPlayed_is_latest_date:
  assumes "s \<in> set (calculatePlayerStats tv bs)"
    and "\<forall>b\<in>set bs. name s \<in> set (players b) \<longrightarrow> tv (date b) \<noteq> None"
  shows "(\<exists>b\<in>set bs. name s \<in> set (players b) \<and> lastPlayed s = date b) \<and>
         (\<exists>y. tv (lastPlayed s) = Some y \<and>
            (\<forall>b\<in>set bs. name s \<in> set (players b) \<longrightarrow>
               (\<forall>z. tv (date b) = Some z \<longrightarrow> z \<le> y)))"
proof -
  from assms(1) obtain s0 where s0: "statOf tv bs (name s) = Some s0"
    and s: "s = s0\<lparr>favoriteCourt := pickFavorite (courtCountsFor bs (name s))\<rparr>"
    by (rule output_elem)
  have lp: "lastPlayed s = lastPlayed s0" by (subst s) simp
  show ?thesis
    unfolding lp using statOf_last [OF s0] statOf_last_max [OF s0 assms(2)] by blast
qed

theorem lastPlayed_is_latest_date_witness:
  "map (\<lambda>s. (name s, lastPlayed s)) (calculatePlayerStats isoTime yearBookings) =
     [(''Ann'', ''2024-01-05''), (''Bob'', ''2024-01-05''), (''Cy'', ''2023-12-30'')] \<and>
   map (\<lambda>s. (name s, lastPlayed s)) (calculatePlayerStats isoTime (rev yearBookings)) =
     [(''Ann'', ''2024-01-05''), (''Cy'', ''2023-12-30''), (''Bob'', ''2024-01-05'')] \<and>
   isoTime ''2023-12-30'' = Some 1703894400000 \<and>
   isoTime ''2024-01-05'' = Some 1704412800000 \<and>
   (\<exists>y. isoTime ''2024-01-05'' = Some y \<and> 1703894400000 \<le> y)"
proof -
  let ?s = "\<lparr>name = ''Ann'', totalMatches = 2, singlesMatches = 2, doublesMatches = 0,
     totalHours = 2, favoriteCourt = 1, lastPlayed = ''2024-01-05''\<rparr>"
  let ?b = "exampleBooking 2 [''Ann'', ''Cy''] Singles ''2023-12-30''"
  have mem: "?s \<in> set (calculatePlayerStats isoTime yearBookings)" by code_simp
  have valid: "\<forall>b\<in>set yearBookings. name ?s \<in> set (players b) \<longrightarrow> isoTime (date b) \<noteq> None"
    by code_simp
  have t1: "isoTime ''2023-12-30'' = Some 1703894400000" by code_simp
  have t2: "isoTime ''2024-01-05'' = Some 1704412800000" by code_simp
  have b: "?b \<in> set yearBookings" "name ?s \<in> set (players ?b)" "date ?b = ''2023-12-30''"
    by (simp_all add: yearBookings_def exampleBooking_def)
  from lastPlayed_is_latest_date [OF mem valid]
  obtain y where y: "isoTime (lastPlayed ?s) = Some y"
    and le: "\<forall>b\<in>set yearBookings. name ?s \<in> set (players b) \<longrightarrow>
               (\<forall>z. isoTime (date b) = Some z \<longrightarrow> z \<le> y)"
    by blast
  from le b t1 have "1703894400000 \<le> y" by (metis)
  with y have ex: "\<exists>y. isoTime ''2024-01-05'' = Some y \<and> 1703894400000 \<le> y" by simp
  have r1: "map (\<lambda>s. (name s, lastPlayed s)) (calculatePlayerStats isoTime yearBookings) =
     [(''Ann'', ''2024-01-05''), (''Bob'', ''2024-01-05''), (''Cy'', ''2023-12-30'')]"
    by code_simp
  have r2: "map (\<lambda>s. (name s, lastPlayed s)) (calculatePlayerStats isoTime (rev yearBookings)) =
     [(''Ann'', ''2024-01-05''), (''Cy'', ''2023-12-30''), (''Bob'', ''2024-01-05'')]"
    by code_simp
  from r1 r2 t1 t2 ex show ?thesis by blast
qed

text \<open>
  C4: the output is sorted in descending order of \<open>totalMatches\<close>. Players grouped in the
  order 3, 5, 1 matches come out in the order 5, 3, 1.
\<close>

theorem output_sorted_by_totalMatches_desc:
  "sorted_wrt (\<lambda>a b. totalMatches b \<le> totalMatches a) (calculatePlayerStats tv bs)"
  by (simp add: calculatePlayerStats_def sorted_sortBy)

theorem output_sorted_by_totalMatches_desc_witness:
  "sorted_wrt (\<lambda>a b. totalMatches b \<le> totalMatches a)
     (calculatePlayerStats isoTime rankBookings) \<and>
   map totalMatches (map_values (favoriteCourtPass rankBookings (groupingPass isoTime rankBookings)))
     = [3, 5, 1] \<and>
   map totalMatches (calculatePlayerStats isoTime rankBookings) = [5, 3, 1]"
proof -
  have a: "sorted_wrt (\<lambda>a b. totalMatches b \<le> totalMatches a)
     (calculatePlayerStats isoTime rankBookings)"
    by (rule output_sorted_by_totalMatches_desc)
  have b: "map totalMatches
     (map_values (favoriteCourtPass rankBookings (groupingPass isoTime rankBookings))) = [3, 5, 1]"
    by code_simp
  have c: "map totalMatches (calculatePlayerStats isoTime rankBookings) = [5, 3, 1]"
    by code_simp
  from a b c show ?thesis by blast
qed

text \<open>
  C5: every PlayerStat of the output has \<open>singlesMatches + doublesMatches = totalMatches\<close>,
  and so have the three sums over the output.
\<close>

theorem singles_plus_doubles_is_total:
  "(\<forall>s\<in>set (calculatePlayerStats tv bs).
      singlesMatches s + doublesMatches s = totalMatches s) \<and>
   sum_list (map singlesMatches (calculatePlayerStats tv bs)) +
   sum_list (map doublesMatches (calculatePlayerStats tv bs)) =
     sum_list (map totalMatches (calculatePlayerStats tv bs))"
proof
  show each: "\<forall>s\<in>set (calculatePlayerStats tv bs).
      singlesMatches s + doublesMatches s = totalMatches s"
  proof
    fix s assume "s \<in> set (calculatePlayerStats tv bs)"
    then obtain s0 where s0: "statOf tv bs (name s) = Some s0"
      and s: "s = s0\<lparr>favoriteCourt := pickFavorite (courtCountsFor bs (name s))\<rparr>"
      by (rule output_elem)
    from statOf_singles_doubles [OF s0] show "singlesMatches s + doublesMatches s = totalMatches s"
      by (subst (1 2 3) s) simp
  qed
  have "(\<forall>s\<in>set xs. singlesMatches s + doublesMatches s = totalMatches s) \<Longrightarrow>
        sum_list (map singlesMatches xs) + sum_list (map doublesMatches xs) =
        sum_list (map totalMatches xs)" for xs :: "PlayerStat list"
    by (induction xs) auto
  from this [OF each]
  show "sum_list (map singlesMatches (calculatePlayerStats tv bs)) +
        sum_list (map doublesMatches (calculatePlayerStats tv bs)) =
        sum_list (map totalMatches (calculatePlayerStats tv bs))" .
qed

theorem singles_plus_doubles_is_total_witness:
  "map (\<lambda>s. (singlesMatches s, doublesMatches s, totalMatches s))
     (calculatePlayerStats isoTime (duplicateBookings @ rankBookings)) =
     [(5, 1, 6), (3, 2, 5), (1, 0, 1)] \<and>
   sum_list (map singlesMatches (calculatePlayerStats isoTime (duplicateBookings @ rankBookings))) +
   sum_list (map doublesMatches (calculatePlayerStats isoTime (duplicateBookings @ rankBookings))) =
     sum_list (map totalMatches (calculatePlayerStats isoTime (duplicateBookings @ rankBookings)))"
proof -
  have a: "map (\<lambda>s. (singlesMatches s, doublesMatches s, totalMatches s))
     (calculatePlayerStats isoTime (duplicateBookings @ rankBookings)) =
     [(5, 1, 6), (3, 2, 5), (1, 0, 1)]"
    by code_simp
  from a singles_plus_doubles_is_total [of isoTime "duplicateBookings @ rankBookings"]
  show ?thesis by blast
qed

text \<open>
  C6: a player entry that is blank after trimming creates no PlayerStat and counts for
  nothing: no name of the output is blank, removing the blank entries of every booking
  leaves the output as it is, and so does removing a booking all of whose entries are
  blank.
\<close>

theorem blank_entries_contribute_nothing:
  "(\<forall>s\<in>set (calculatePlayerStats tv bs). truthy (trim (name s))) \<and>
   calculatePlayerStats tv (map dropBlank bs) = calculatePlayerStats tv bs \<and>
   ((\<forall>p\<in>set (players b). \<not> truthy (trim p)) \<longrightarrow>
      calculatePlayerStats tv (xs @ b # ys) = calculatePlayerStats tv (xs @ ys))"
proof (intro conjI ballI impI)
  fix s assume "s \<in> set (calculatePlayerStats tv bs)"
  then obtain s0 where "statOf tv bs (name s) = Some s0"
    by (rule output_elem)
  then show "truthy (trim (name s))" by (rule statOf_SomeD(1))
next
  show "calculatePlayerStats tv (map dropBlank bs) = calculatePlayerStats tv bs"
    by (rule calculate_dropBlank)
next
  assume "\<forall>p\<in>set (players b). \<not> truthy (trim p)"
  then show "calculatePlayerStats tv (xs @ b # ys) = calculatePlayerStats tv (xs @ ys)"
    by (rule calculate_skip_blank)
qed

theorem blank_entries_contribute_nothing_witness:
  "list_all (\<lambda>p. \<not> truthy (trim p)) (players blankBooking) \<and>
   players blankBooking = ['' '', ''''] \<and>
   calculatePlayerStats isoTime [blankBooking] = [] \<and>
   calculatePlayerStats isoTime ([hd courtBookings] @ blankBooking # tl courtBookings) =
     calculatePlayerStats isoTime ([hd courtBookings] @ tl courtBookings) \<and>
   map name (calculatePlayerStats isoTime rankBookings) = [''Bob'', ''Ann'', ''Cy''] \<and>
   calculatePlayerStats isoTime (map dropBlank rankBookings) =
     calculatePlayerStats isoTime rankBookings"
proof -
  have blank: "\<forall>p\<in>set (players blankBooking). \<not> truthy (trim p)" by code_simp
  then have la: "list_all (\<lambda>p. \<not> truthy (trim p)) (players blankBooking)"
    by (simp add: list_all_iff)
  have pl: "players blankBooking = ['' '', '''']" by code_simp
  have e: "calculatePlayerStats isoTime [blankBooking] = []" by code_simp
  have n: "map name (calculatePlayerStats isoTime rankBookings) = [''Bob'', ''Ann'', ''Cy'']"
    by code_simp
  from blank_entries_contribute_nothing
         [of isoTime rankBookings blankBooking "[hd courtBookings]" "tl courtBookings"] blank
  have "calculatePlayerStats isoTime ([hd courtBookings] @ blankBooking # tl courtBookings) =
          calculatePlayerStats isoTime ([hd courtBookings] @ tl courtBookings)"
    and "calculatePlayerStats isoTime (map dropBlank rankBookings) =
          calculatePlayerStats isoTime rankBookings"
    by blast+
  with la pl e n show ?thesis by blast
qed

text \<open>
  C9: a name that stands k times in the player list of one booking is counted k times by
  the first pass (\<open>totalMatches\<close> sums the occurrences of the name over the bookings,
  \<open>totalHours\<close> the occurrences times the duration of the booking), while the tally
  of the second pass, from which \<open>favoriteCourt\<close> is picked, counts each booking that
  contains the name once for its court.
\<close>

theorem duplicate_entries_counted_per_entry_court_once:
  assumes "s \<in> set (calculatePlayerStats tv bs)"
  shows "totalMatches s = sum_list (map (\<lambda>b. count_list (players b) (name s)) bs) \<and>
         totalHours s =
           sum_list (map (\<lambda>b. count_list (players b) (name s) * matchDuration b) bs) \<and>
         favoriteCourt s = pickFavorite (courtCountsFor bs (name s)) \<and>
         (\<forall>c. map_get (courtCountsFor bs (name s)) c =
            (if \<exists>b\<in>set bs. name s \<in> set (players b) \<and> court b = c
             then Some (length (filter (\<lambda>b. name s \<in> set (players b) \<and> court b = c) bs))
             else None))"
proof -
  from assms obtain s0 where s0: "statOf tv bs (name s) = Some s0"
    and s: "s = s0\<lparr>favoriteCourt := pickFavorite (courtCountsFor bs (name s))\<rparr>"
    by (rule output_elem)
  have "totalMatches s = totalMatches s0" "totalHours s = totalHours s0"
    "favoriteCourt s = pickFavorite (courtCountsFor bs (name s))"
    by (subst s, simp)+
  moreover have "c \<in> set (courtsOf bs k) \<longleftrightarrow> (\<exists>b\<in>set bs. k \<in> set (players b) \<and> court b = c)"
    for c k
    by (auto simp: courtsOf_def)
  ultimately show ?thesis
    using statOf_total [OF s0] statOf_hours [OF s0]
    by (simp add: map_get_courtCountsFor count_courtsOf)
qed

theorem duplicate_entries_counted_per_entry_court_once_witness:
  "players (hd duplicateBookings) = [''Ann'', ''Ann'', ''Bob''] \<and>
   matchDuration (hd duplicateBookings) = 2 \<and>
   map (\<lambda>s. (name s, totalMatches s, totalHours s)) (calculatePlayerStats isoTime duplicateBookings)
     = [(''Ann'', 2, 4), (''Bob'', 1, 2)] \<and>
   courtCountsFor duplicateBookings ''Ann'' = [(2, 1)] \<and>
   map_get (courtCountsFor duplicateBookings ''Ann'') 2 = Some 1"
proof -
  let ?s = "\<lparr>name = ''Ann'', totalMatches = 2, singlesMatches = 0, doublesMatches = 2,
     totalHours = 4, favoriteCourt = 2, lastPlayed = ''2024-01-07''\<rparr>"
  have mem: "?s \<in> set (calculatePlayerStats isoTime duplicateBookings)" by code_simp
  have a: "players (hd duplicateBookings) = [''Ann'', ''Ann'', ''Bob'']" by code_simp
  have b: "matchDuration (hd duplicateBookings) = 2" by code_simp
  have c: "map (\<lambda>s. (name s, totalMatches s, totalHours s))
             (calculatePlayerStats isoTime duplicateBookings) = [(''Ann'', 2, 4), (''Bob'', 1, 2)]"
    by code_simp
  have d: "courtCountsFor duplicateBookings ''Ann'' = [(2, 1)]" by code_simp
  have "length (filter (\<lambda>b. ''Ann'' \<in> set (players b) \<and> court b = 2) duplicateBookings) = 1"
    by code_simp
  moreover have "\<exists>b\<in>set duplicateBookings. ''Ann'' \<in> set (players b) \<and> court b = 2"
    by code_simp
  ultimately have "map_get (courtCountsFor duplicateBookings ''Ann'') 2 = Some 1"
    using duplicate_entries_counted_per_entry_court_once [OF mem] by simp
  with a b c d show ?thesis by blast
qed

section \<open>Lemmas about EmailNotifications and App\<close>

lemma matches_PlusD:
  "matches (Plus P # r) s \<Longrightarrow>
   \<exists>a b. s = a @ b \<and> a \<noteq> [] \<and> (\<forall>c\<in>set a. P c) \<and> matches r b"
proof (induction s)
  case Nil
  then show ?case by simp
next
  case (Cons x xs)
  then have px: "P x" and alt: "matches (Plus P # r) xs \<or> matches r xs" by simp_all
  from alt show ?case
  proof
    assume "matches (Plus P # r) xs"
    from Cons.IH [OF this] obtain a b where "xs = a @ b" "a \<noteq> []" "\<forall>c\<in>set a. P c" "matches r b"
      by blast
    with px have "x # xs = (x # a) @ b \<and> x # a \<noteq> [] \<and> (\<forall>c\<in>set (x # a). P c) \<and> matches r b"
      by simp
    then show ?thesis by blast
  next
    assume "matches r xs"
    with px have "x # xs = [x] @ xs \<and> [x] \<noteq> [] \<and> (\<forall>c\<in>set [x]. P c) \<and> matches r xs"
      by simp
    then show ?thesis by blast
  qed
qed

lemma matches_LitD: "matches (Lit c # r) s \<Longrightarrow> \<exists>b. s = c # b \<and> matches r b"
  by (cases s) auto

lemma emailRegex_shape:
  assumes "matches emailRegex s"
  shows "\<exists>l d t. l \<noteq> [] \<and> d \<noteq> [] \<and> t \<noteq> [] \<and> s = l @ ''@'' @ d @ ''.'' @ t \<and>
           (\<forall>c\<in>set l \<union> set d \<union> set t. notSpaceAt c)"
proof -
  from assms obtain l b1 where l: "s = l @ b1" "l \<noteq> []" "\<forall>c\<in>set l. notSpaceAt c"
    and m1: "matches [Lit CHR ''@'', Plus notSpaceAt, Lit CHR ''.'', Plus notSpaceAt] b1"
    unfolding emailRegex_def by (blast dest: matches_PlusD)
  from m1 obtain b2 where b2: "b1 = CHR ''@'' # b2"
    and m2: "matches [Plus notSpaceAt, Lit CHR ''.'', Plus notSpaceAt] b2"
    by (blast dest: matches_LitD)
  from m2 obtain d b3 where d: "b2 = d @ b3" "d \<noteq> []" "\<forall>c\<in>set d. notSpaceAt c"
    and m3: "matches [Lit CHR ''.'', Plus notSpaceAt] b3"
    by (blast dest: matches_PlusD)
  from m3 obtain b4 where b4: "b3 = CHR ''.'' # b4" and m4: "matches [Plus notSpaceAt] b4"
    by (blast dest: matches_LitD)
  from m4 obtain t b5 where t: "b4 = t @ b5" "t \<noteq> []" "\<forall>c\<in>set t. notSpaceAt c"
    and m5: "matches [] b5"
    by (blast dest: matches_PlusD)
  from m5 have "b5 = []" by simp
  with l b2 d b4 t have "s = l @ ''@'' @ d @ ''.'' @ t" by simp
  with l(2,3) d(2,3) t(2,3) show ?thesis by blast
qed

lemma emailRegex_specAddressShape: "matches emailRegex s \<Longrightarrow> specAddressShape s"
proof -
  assume "matches emailRegex s"
  from emailRegex_shape [OF this] obtain l d t where
    ne: "l \<noteq> []" "d \<noteq> []" "t \<noteq> []" and s: "s = l @ ''@'' @ d @ ''.'' @ t"
    and cls: "\<forall>c\<in>set l \<union> set d \<union> set t. notSpaceAt c"
    by blast
  have "\<not> isWhiteSpace CHR ''@''" "\<not> isWhiteSpace CHR ''.''"
    by (simp_all add: isWhiteSpace_def)
  with cls have "\<forall>c\<in>set s. \<not> isWhiteSpace c"
    by (auto simp: s notSpaceAt_def)
  with ne s show ?thesis unfolding specAddressShape_def by blast
qed

lemma validateEmails_iff:
  "e \<in> set (validateEmails st) \<longleftrightarrow>
     e \<in> set (emailAddresses st) \<and> truthy (trim e) \<and> matches emailRegex (trim e)"
  by (auto simp: validateEmails_def Let_def)

lemma calls_sendNotifications:
  "set (calls (sendNotifications env cb st)) \<subseteq>
     emailRequest (emailTemplate st) ` set (validateEmails st)"
proof -
  have "set (take n (map f xs)) \<subseteq> f ` set xs" for n and f :: "string \<Rightarrow> email_request" and xs
    using set_take_subset [of n "map f xs"] by simp
  then show ?thesis
    by (auto simp: sendNotifications_def Let_def split: option.splits callback.splits)
qed

lemma callAll_no_throw:
  "(\<forall>j<length rs. env (i + j) (rs ! j) \<noteq> Threw) \<Longrightarrow>
   callAll env i rs = map (\<lambda>j. env (i + j) (rs ! j)) [0..<length rs]"
proof (induction rs arbitrary: i)
  case Nil
  then show ?case by simp
next
  case (Cons r rs)
  from Cons.prems have hd: "env i r \<noteq> Threw" by fastforce
  from Cons.prems have "\<forall>j<length rs. env (Suc i + j) (rs ! j) \<noteq> Threw" by fastforce
  from Cons.IH [OF this]
  have tl: "callAll env (Suc i) rs = map (\<lambda>j. env (Suc i + j) (rs ! j)) [0..<length rs]" .
  have "map (\<lambda>j. env (i + j) ((r # rs) ! j)) [0..<length (r # rs)] =
        env i r # map (\<lambda>j. env (Suc i + j) (rs ! j)) [0..<length rs]"
    by (simp add: map_upt_Suc del: upt_Suc)
  with hd tl show ?case by (cases "env i r") simp_all
qed

lemma callAll_outcomes:
  "(\<forall>j<length rs. env j (rs ! j) \<noteq> Threw) \<Longrightarrow> callAll env 0 rs = outcomes env rs"
  using callAll_no_throw [of rs env 0] by (simp add: outcomes_def)

lemma length_outcomes: "length (outcomes env rs) = length rs"
  by (simp add: outcomes_def)

lemma Threw_outcomes:
  "(\<forall>j<length rs. env j (rs ! j) \<noteq> Threw) \<Longrightarrow> Threw \<notin> set (outcomes env rs)"
  by (auto simp: outcomes_def)

lemma sendNotifications_settled:
  assumes "validateEmails st \<noteq> []"
    and "truthy (trim (subject (emailTemplate st)))"
    and "truthy (trim (message (emailTemplate st)))"
    and "callAll env 0 (map (emailRequest (emailTemplate st)) (validateEmails st)) = results"
    and "Threw \<notin> set results"
    and "length results = length (validateEmails st)"
  shows "calls (sendNotifications env cb st) =
           map (emailRequest (emailTemplate st)) (validateEmails st)"
    and "length (filter (\<lambda>r. r = Rejected) results) = 0 \<Longrightarrow> cb \<noteq> Some Throws \<Longrightarrow>
         state (sendNotifications env cb st) =
           st\<lparr>isSending := False, sendStatus := Success, errorMessage := []\<rparr>"
    and "1 \<le> length (filter (\<lambda>r. r = Rejected) results) \<Longrightarrow>
         state (sendNotifications env cb st) =
           st\<lparr>isSending := False, sendStatus := Error,
              errorMessage :=
                ''Failed to send '' @ showNat (length (filter (\<lambda>r. r = Rejected) results)) @
                '' out of '' @ showNat (length (validateEmails st)) @ '' emails.''\<rparr>"
proof -
  have c: "(length (validateEmails st) = 0) = False" using assms(1) by simp
  have t: "(\<not> truthy (trim (subject (emailTemplate st))) \<or>
            \<not> truthy (trim (message (emailTemplate st)))) = False"
    using assms(2,3) by simp
  have th: "(Threw \<in> set results) = False" using assms(5) by simp
  have tk: "take (length results) (map (emailRequest (emailTemplate st)) (validateEmails st)) =
            map (emailRequest (emailTemplate st)) (validateEmails st)"
    using assms(6) by simp
  show "calls (sendNotifications env cb st) =
          map (emailRequest (emailTemplate st)) (validateEmails st)"
    unfolding sendNotifications_def Let_def assms(4) c t th tk if_False
    by (simp split: option.split callback.split)
  show "state (sendNotifications env cb st) =
           st\<lparr>isSending := False, sendStatus := Success, errorMessage := []\<rparr>"
    if f0: "length (filter (\<lambda>r. r = Rejected) results) = 0" and cb: "cb \<noteq> Some Throws"
  proof -
    have z: "(length (filter (\<lambda>r. r = Rejected) results) = 0) = True" using f0 by simp
    from cb consider "cb = None" | "cb = Some Returns"
      by (cases cb) (auto intro: callback.exhaust)
    then show ?thesis
      unfolding sendNotifications_def Let_def assms(4) c t th tk z if_False if_True
      by cases simp_all
  qed
  show "state (sendNotifications env cb st) =
           st\<lparr>isSending := False, sendStatus := Error,
              errorMessage :=
                ''Failed to send '' @ showNat (length (filter (\<lambda>r. r = Rejected) results)) @
                '' out of '' @ showNat (length (validateEmails st)) @ '' emails.''\<rparr>"
    if f1: "1 \<le> length (filter (\<lambda>r. r = Rejected) results)"
  proof -
    have z: "(length (filter (\<lambda>r. r = Rejected) results) = 0) = False" using f1 by auto
    show ?thesis
      unfolding sendNotifications_def Let_def assms(4) c t th tk z if_False
      by simp
  qed
qed

lemma cellUnique_filter: "cellUnique bs \<Longrightarrow> cellUnique (filter P bs)"
  unfolding cellUnique_def by (rule distinct_map_filter)

lemma cellUnique_replace:
  assumes "cellUnique bs" and "court nb = editing_court e" and "timeSlot nb = editing_timeSlot e"
  shows "cellUnique (filter (otherCell e) bs @ [nb])"
proof -
  have "(court nb, timeSlot nb) \<notin> (\<lambda>b. (court b, timeSlot b)) ` set (filter (otherCell e) bs)"
    using assms(2,3) by (auto simp: otherCell_def)
  moreover have "distinct (map (\<lambda>b. (court b, timeSlot b)) (filter (otherCell e) bs))"
    using cellUnique_filter [OF assms(1)] by (simp add: cellUnique_def)
  ultimately show ?thesis by (simp add: cellUnique_def)
qed

lemma bookings_closeDialog: "bookings (closeDialog st) = bookings st"
  by (simp add: closeDialog_def)

lemma bookings_delete:
  "bookings (handleDeleteBooking st) =
     (case editingBooking st of None \<Rightarrow> bookings st
      | Some e \<Rightarrow> filter (otherCell e) (bookings st))"
  by (simp add: handleDeleteBooking_def bookings_closeDialog split: option.split)

lemma bookings_save:
  "bookings (handleSaveBooking now st) =
     (case editingBooking st of None \<Rightarrow> bookings st
      | Some e \<Rightarrow>
          if filter (\<lambda>p. truthy (trim p)) (playerInputs st) = []
          then filter (otherCell e) (bookings st)
          else filter (otherCell e) (bookings st) @
                 [\<lparr>id_field = showInt (editing_court e) @ ''-'' @ editing_timeSlot e @ ''-'' @
                               showNat now,
                   court = editing_court e, timeSlot = editing_timeSlot e,
                   players = filter (\<lambda>p. truthy (trim p)) (playerInputs st),
                   type = editing_type e, date = selectedDate st\<rparr>])"
  by (simp add: handleSaveBooking_def bookings_closeDialog Let_def split: option.split
          )

section \<open>Claims about EmailNotifications and App\<close>

text \<open>
  C7, as stated: every entered address that fails the shape check, a shape with no white
  space in it, is excluded. The check is made on \<open>email.trim()\<close> and the filter keeps the
  address as entered: an address with a leading space does not have the shape, is kept
  among the valid recipients, and a call to the service is made for it.
\<close>

theorem padded_address_is_dispatched:
  "\<not> specAddressShape '' foo@bar.com'' \<and>
   validateEmails paddedState = ['' foo@bar.com''] \<and>
   map to (calls (sendNotifications alwaysFulfilled None paddedState)) = ['' foo@bar.com''] \<and>
   sendStatus (state (sendNotifications alwaysFulfilled None paddedState)) = Success"
proof -
  have "isWhiteSpace CHR '' ''" by (simp add: isWhiteSpace_def)
  then have a: "\<not> specAddressShape '' foo@bar.com''" by (simp add: specAddressShape_def)
  have b: "validateEmails paddedState = ['' foo@bar.com'']" by code_simp
  have c: "map to (calls (sendNotifications alwaysFulfilled None paddedState)) =
             ['' foo@bar.com'']"
    by code_simp
  have d: "sendStatus (state (sendNotifications alwaysFulfilled None paddedState)) = Success"
    by code_simp
  from a b c d show ?thesis by blast
qed

text \<open>
  C7, amended: every entered address whose trimmed form fails the shape check is
  excluded, every call to the service is for an address whose trimmed form has the
  shape, and with no valid recipient left the run ends in the error status with no call
  made. \<open>foo@bar\<close> is excluded and \<open>foo@bar.com\<close> is kept.
\<close>

theorem invalid_recipients_excluded:
  "(\<forall>e\<in>set (emailAddresses st). \<not> specAddressShape (trim e) \<longrightarrow> e \<notin> set (validateEmails st)) \<and>
   (\<forall>r\<in>set (calls (sendNotifications env cb st)). specAddressShape (trim (to r))) \<and>
   (validateEmails st = [] \<longrightarrow>
      calls (sendNotifications env cb st) = [] \<and>
      state (sendNotifications env cb st) =
        st\<lparr>errorMessage := ''Please enter at least one valid email address.'',
           sendStatus := Error\<rparr>)"
proof (intro conjI ballI impI)
  fix e assume "e \<in> set (emailAddresses st)" and "\<not> specAddressShape (trim e)"
  then show "e \<notin> set (validateEmails st)"
    by (auto simp: validateEmails_iff dest: emailRegex_specAddressShape)
next
  fix r assume "r \<in> set (calls (sendNotifications env cb st))"
  with calls_sendNotifications [of env cb st]
  obtain e where e: "e \<in> set (validateEmails st)" and r: "r = emailRequest (emailTemplate st) e"
    by blast
  have "to r = e" by (simp add: r emailRequest_def)
  with e show "specAddressShape (trim (to r))"
    by (auto simp: validateEmails_iff dest: emailRegex_specAddressShape)
next
  assume "validateEmails st = []"
  then show "calls (sendNotifications env cb st) = []"
    and "state (sendNotifications env cb st) =
        st\<lparr>errorMessage := ''Please enter at least one valid email address.'',
           sendStatus := Error\<rparr>"
    by (simp_all add: sendNotifications_def)
qed

theorem invalid_recipients_excluded_witness:
  "emailAddresses mixedState = [''foo@bar'', ''foo@bar.com'', ''a b@c.d'', []] \<and>
   validateEmails mixedState = [''foo@bar.com''] \<and>
   ''foo@bar'' \<notin> set (validateEmails mixedState) \<and>
   specAddressShape (trim ''foo@bar.com'') \<and>
   map to (calls (sendNotifications (\<lambda>i r. Fulfilled) None mixedState)) = [''foo@bar.com''] \<and>
   validateEmails invalidState = [] \<and>
   calls (sendNotifications (\<lambda>i r. Fulfilled) None invalidState) = [] \<and>
   sendStatus (state (sendNotifications (\<lambda>i r. Fulfilled) None invalidState)) = Error"
proof -
  let ?out = "sendNotifications (\<lambda>i r. Fulfilled) None mixedState"
  let ?r = "emailRequest (emailTemplate mixedState) ''foo@bar.com''"
  have a: "emailAddresses mixedState = [''foo@bar'', ''foo@bar.com'', ''a b@c.d'', []]"
    by (simp add: mixedState_def)
  have b: "validateEmails mixedState = [''foo@bar.com'']" by code_simp
  then have c: "''foo@bar'' \<notin> set (validateEmails mixedState)" by simp
  have d: "map to (calls ?out) = [''foo@bar.com'']" by code_simp
  have "calls ?out = [?r]" by code_simp
  then have "?r \<in> set (calls ?out)" by simp
  with invalid_recipients_excluded [of mixedState "\<lambda>i r. Fulfilled" None]
  have "specAddressShape (trim (to ?r))" by blast
  then have e: "specAddressShape (trim ''foo@bar.com'')" by (simp add: emailRequest_def)
  have f: "validateEmails invalidState = []" by code_simp
  with invalid_recipients_excluded [of invalidState "\<lambda>i r. Fulfilled" None]
  have g: "calls (sendNotifications (\<lambda>i r. Fulfilled) None invalidState) = []"
    and "state (sendNotifications (\<lambda>i r. Fulfilled) None invalidState) =
        invalidState\<lparr>errorMessage := ''Please enter at least one valid email address.'',
           sendStatus := Error\<rparr>"
    by blast+
  then have h: "sendStatus (state (sendNotifications (\<lambda>i r. Fulfilled) None invalidState)) = Error"
    by simp
  from a b c d e f g h show ?thesis by blast
qed

text \<open>
  C8: when there are N valid recipients, the subject and the message are not blank and
  no call to the service throws, one request per valid recipient is made, in order, and
  the report depends on all N outcomes: with no rejected promise (and a callback that
  returns, when there is one) the status is success; with F >= 1 rejected promises the
  status is error and the message is \<open>Failed to send F out of N emails.\<close>, the state
  carrying nothing about single recipients. One rejection out of three gives
  \<open>1 out of 3\<close>.
\<close>

theorem batch_reported_by_failure_count:
  assumes "validateEmails st \<noteq> []"
    and "truthy (trim (subject (emailTemplate st)))"
    and "truthy (trim (message (emailTemplate st)))"
    and "\<forall>j<length (validateEmails st).
           env j (map (emailRequest (emailTemplate st)) (validateEmails st) ! j) \<noteq> Threw"
  shows "calls (sendNotifications env cb st) =
           map (emailRequest (emailTemplate st)) (validateEmails st) \<and>
         (length (filter (\<lambda>r. r = Rejected)
            (outcomes env (map (emailRequest (emailTemplate st)) (validateEmails st)))) = 0
            \<longrightarrow> cb \<noteq> Some Throws \<longrightarrow>
          state (sendNotifications env cb st) =
            st\<lparr>isSending := False, sendStatus := Success, errorMessage := []\<rparr>) \<and>
         (1 \<le> length (filter (\<lambda>r. r = Rejected)
            (outcomes env (map (emailRequest (emailTemplate st)) (validateEmails st))))
            \<longrightarrow>
          state (sendNotifications env cb st) =
            st\<lparr>isSending := False, sendStatus := Error,
               errorMessage :=
                 ''Failed to send '' @
                 showNat (length (filter (\<lambda>r. r = Rejected)
                   (outcomes env (map (emailRequest (emailTemplate st)) (validateEmails st))))) @
                 '' out of '' @ showNat (length (validateEmails st)) @ '' emails.''\<rparr>)"
proof -
  let ?rs = "map (emailRequest (emailTemplate st)) (validateEmails st)"
  from assms(4) have nt: "\<forall>j<length ?rs. env j (?rs ! j) \<noteq> Threw" by simp
  have res: "callAll env 0 ?rs = outcomes env ?rs" using nt by (rule callAll_outcomes)
  have nothrow: "Threw \<notin> set (outcomes env ?rs)" using nt by (rule Threw_outcomes)
  have len: "length (outcomes env ?rs) = length (validateEmails st)"
    by (simp add: length_outcomes)
  note s = sendNotifications_settled [OF assms(1-3) res nothrow len, of cb]
  from s(1) s(2) s(3) show ?thesis by blast
qed

theorem batch_reported_by_failure_count_witness:
  "validateEmails threeState = [''ann@club.org'', ''bob@club.org'', ''cy@club.org''] \<and>
   outcomes secondRejected (map (emailRequest (emailTemplate threeState)) (validateEmails threeState))
     = [Fulfilled, Rejected, Fulfilled] \<and>
   map to (calls (sendNotifications secondRejected None threeState)) =
     [''ann@club.org'', ''bob@club.org'', ''cy@club.org''] \<and>
   state (sendNotifications secondRejected None threeState) =
     threeState\<lparr>isSending := False, sendStatus := Error,
       errorMessage := ''Failed to send 1 out of 3 emails.''\<rparr> \<and>
   state (sendNotifications alwaysFulfilled None threeState) =
     threeState\<lparr>isSending := False, sendStatus := Success, errorMessage := []\<rparr>"
proof -
  let ?rs = "map (emailRequest (emailTemplate threeState)) (validateEmails threeState)"
  have v: "validateEmails threeState = [''ann@club.org'', ''bob@club.org'', ''cy@club.org'']"
    by code_simp
  then have ne: "validateEmails threeState \<noteq> []" by simp
  have s: "truthy (trim (subject (emailTemplate threeState)))" by code_simp
  have m: "truthy (trim (message (emailTemplate threeState)))" by code_simp
  have o1: "outcomes secondRejected ?rs = [Fulfilled, Rejected, Fulfilled]" by code_simp
  have o2: "outcomes alwaysFulfilled ?rs = [Fulfilled, Fulfilled, Fulfilled]" by code_simp
  have n1: "\<forall>j<length (validateEmails threeState). secondRejected j (?rs ! j) \<noteq> Threw"
    by (simp add: secondRejected_def)
  have n2: "\<forall>j<length (validateEmails threeState). alwaysFulfilled j (?rs ! j) \<noteq> Threw"
    by (simp add: alwaysFulfilled_def)
  have sh: "showNat (Suc 0) = ''1''" "showNat 3 = ''3''" by code_simp+
  have l3: "length (validateEmails threeState) = 3" by (simp add: v)
  from batch_reported_by_failure_count [of threeState secondRejected None] ne s m n1
  have a: "state (sendNotifications secondRejected None threeState) =
     threeState\<lparr>isSending := False, sendStatus := Error,
       errorMessage := ''Failed to send 1 out of 3 emails.''\<rparr>"
    by (simp add: o1 l3 sh)
  from batch_reported_by_failure_count [of threeState alwaysFulfilled None] ne s m n2
  have b: "state (sendNotifications alwaysFulfilled None threeState) =
     threeState\<lparr>isSending := False, sendStatus := Success, errorMessage := []\<rparr>"
    by (simp add: o2)
  have c: "map to (calls (sendNotifications secondRejected None threeState)) =
     [''ann@club.org'', ''bob@club.org'', ''cy@club.org'']"
    by code_simp
  from v o1 c a b show ?thesis by blast
qed

text \<open>
  C10: when the bookings of the date hold at most one booking per court and time slot,
  so do they after \<open>handleSaveBooking\<close> and after \<open>handleDeleteBooking\<close>. With a cell
  being edited, deleting removes the bookings of the cell; saving with every player
  input blank does the same and stores nothing; saving otherwise removes them and
  appends one booking for the cell, holding the non-blank inputs.
\<close>

theorem handlers_keep_one_booking_per_cell:
  assumes "cellUnique (bookings st)"
  shows "cellUnique (bookings (handleSaveBooking now st)) \<and>
         cellUnique (bookings (handleDeleteBooking st)) \<and>
         (\<forall>e. editingBooking st = Some e \<longrightarrow>
            bookings (handleDeleteBooking st) = filter (otherCell e) (bookings st) \<and>
            (list_all (\<lambda>p. \<not> truthy (trim p)) (playerInputs st) \<longrightarrow>
               bookings (handleSaveBooking now st) = filter (otherCell e) (bookings st)) \<and>
            (\<not> list_all (\<lambda>p. \<not> truthy (trim p)) (playerInputs st) \<longrightarrow>
               (\<exists>nb. bookings (handleSaveBooking now st) =
                        filter (otherCell e) (bookings st) @ [nb] \<and>
                     court nb = editing_court e \<and> timeSlot nb = editing_timeSlot e \<and>
                     players nb = filter (\<lambda>p. truthy (trim p)) (playerInputs st) \<and>
                     players nb \<noteq> [])))"
proof (intro conjI allI impI)
  show "cellUnique (bookings (handleSaveBooking now st))"
    unfolding bookings_save
    using assms by (auto split: option.split intro: cellUnique_filter cellUnique_replace)
  show "cellUnique (bookings (handleDeleteBooking st))"
    unfolding bookings_delete
    using assms by (auto split: option.split intro: cellUnique_filter)
next
  fix e assume e: "editingBooking st = Some e"
  show "bookings (handleDeleteBooking st) = filter (otherCell e) (bookings st)"
    by (simp add: bookings_delete e)
  have blank_iff: "list_all (\<lambda>p. \<not> truthy (trim p)) ps \<longleftrightarrow> filter (\<lambda>p. truthy (trim p)) ps = []"
    for ps
    by (simp add: list_all_iff filter_empty_conv)
  show "bookings (handleSaveBooking now st) = filter (otherCell e) (bookings st)"
    if "list_all (\<lambda>p. \<not> truthy (trim p)) (playerInputs st)"
    using that unfolding bookings_save by (simp add: e blank_iff)
  show "\<exists>nb. bookings (handleSaveBooking now st) = filter (otherCell e) (bookings st) @ [nb] \<and>
           court nb = editing_court e \<and> timeSlot nb = editing_timeSlot e \<and>
           players nb = filter (\<lambda>p. truthy (trim p)) (playerInputs st) \<and> players nb \<noteq> []"
    if "\<not> list_all (\<lambda>p. \<not> truthy (trim p)) (playerInputs st)"
    using that unfolding bookings_save by (simp add: e blank_iff)
qed

theorem handlers_keep_one_booking_per_cell_witness:
  "cellUnique (bookings (editingState ['''', '' ''])) \<and>
   map (\<lambda>b. (court b, players b)) (bookings (editingState ['''', '' ''])) =
     [(3, [''Ann'', ''Bob'']), (1, [''Ann'', ''Cy'']), (2, [''Dee'', ''Eve''])] \<and>
   cellUnique (bookings (handleSaveBooking 17 (editingState ['' Flo'', '' '']))) \<and>
   map (\<lambda>b. (court b, players b)) (bookings (handleSaveBooking 17 (editingState ['' Flo'', '' '']))) =
     [(3, [''Ann'', ''Bob'']), (1, [''Ann'', ''Cy'']), (2, ['' Flo''])] \<and>
   cellUnique (bookings (handleSaveBooking 17 (editingState ['''', '' '']))) \<and>
   map (\<lambda>b. (court b, players b)) (bookings (handleSaveBooking 17 (editingState ['''', '' '']))) =
     [(3, [''Ann'', ''Bob'']), (1, [''Ann'', ''Cy''])] \<and>
   cellUnique (bookings (handleDeleteBooking (editingState ['''', '' '']))) \<and>
   map (\<lambda>b. (court b, players b)) (bookings (handleDeleteBooking (editingState ['''', '' '']))) =
     [(3, [''Ann'', ''Bob'']), (1, [''Ann'', ''Cy''])]"
proof -
  have u: "cellUnique (bookings (editingState inputs))" for inputs
    by (simp add: cellUnique_def editingState_def courtBookings_def exampleBooking_def)
  note t1 = handlers_keep_one_booking_per_cell [OF u, of 17 "['' Flo'', '' '']"]
  note t2 = handlers_keep_one_booking_per_cell [OF u, of 17 "['''', '' '']"]
  have a: "map (\<lambda>b. (court b, players b)) (bookings (editingState ['''', '' ''])) =
     [(3, [''Ann'', ''Bob'']), (1, [''Ann'', ''Cy'']), (2, [''Dee'', ''Eve''])]"
    by code_simp
  have b: "map (\<lambda>b. (court b, players b))
       (bookings (handleSaveBooking 17 (editingState ['' Flo'', '' '']))) =
     [(3, [''Ann'', ''Bob'']), (1, [''Ann'', ''Cy'']), (2, ['' Flo''])]"
    by code_simp
  have c: "map (\<lambda>b. (court b, players b))
       (bookings (handleSaveBooking 17 (editingState ['''', '' '']))) =
     [(3, [''Ann'', ''Bob'']), (1, [''Ann'', ''Cy''])]"
    by code_simp
  have d: "map (\<lambda>b. (court b, players b))
       (bookings (handleDeleteBooking (editingState ['''', '' '']))) =
     [(3, [''Ann'', ''Bob'']), (1, [''Ann'', ''Cy''])]"
    by code_simp
  from u [of "['''', '' '']"] t1 t2 a b c d show ?thesis by blast
qed

end
